theory Spec2Isabelle
  imports Complex_Main "HOL-Library.Sublist"
begin

section \<open>Values of the analyzer\<close>

text \<open>
  The analyzer (\<^verbatim>\<open>src/analyzer/run_v5_3.py\<close>) computes with Python floats and pandas
  columns. Two models of a float are used.

  The columns of the table (\<^verbatim>\<open>book_prob\<close>, \<^verbatim>\<open>fair_prob\<close>, \<^verbatim>\<open>ev_pct\<close>) are modelled as
  \<open>pyfloat\<close>: either a finite value, idealised as an exact real number, or \<open>NaN\<close>. What
  is proved about the table (which rows are kept, selected, sorted, and where an
  undefined value goes) does not depend on rounding.

  The Odds Converter, the product of the legs' probabilities and the price conversion
  are modelled in IEEE 754 binary64, the arithmetic of Python floats, with rounding to
  nearest, infinities, NaN and the exceptions Python raises (section
  \<open>Binary64 arithmetic\<close>): the value ranges, the returned prices and the round trip depend
  on it.

  A cell of the loaded table is a number, a text, or missing (\<open>Null\<close>, which pandas
  holds as NaN). A numeric cell holds a double.
\<close>

datatype error = ValueError | TypeError | ZeroDivisionError | KeyError | OverflowError

datatype pyfloat = Val real | NaN

datatype cell = Number real | Text string | Null

subsection \<open>Float arithmetic and comparison\<close>

text \<open>Comparisons with NaN are false; arithmetic with NaN gives NaN.\<close>

fun lt_num :: "pyfloat \<Rightarrow> pyfloat \<Rightarrow> bool" where
  "lt_num (Val a) (Val b) = (a < b)"
| "lt_num _ _ = False"

fun le_num :: "pyfloat \<Rightarrow> pyfloat \<Rightarrow> bool" where
  "le_num (Val a) (Val b) = (a \<le> b)"
| "le_num _ _ = False"

fun ge_num :: "pyfloat \<Rightarrow> pyfloat \<Rightarrow> bool" where
  "ge_num (Val a) (Val b) = (a \<ge> b)"
| "ge_num _ _ = False"

fun neg_num :: "pyfloat \<Rightarrow> pyfloat" where
  "neg_num (Val a) = Val (- a)"
| "neg_num NaN = NaN"

fun add_num :: "pyfloat \<Rightarrow> pyfloat \<Rightarrow> pyfloat" where
  "add_num (Val a) (Val b) = Val (a + b)"
| "add_num _ _ = NaN"

fun sub_num :: "pyfloat \<Rightarrow> pyfloat \<Rightarrow> pyfloat" where
  "sub_num (Val a) (Val b) = Val (a - b)"
| "sub_num _ _ = NaN"

fun mul_num :: "pyfloat \<Rightarrow> pyfloat \<Rightarrow> pyfloat" where
  "mul_num (Val a) (Val b) = Val (a * b)"
| "mul_num _ _ = NaN"

text \<open>Python's \<^verbatim>\<open>/\<close> on floats raises ZeroDivisionError on a zero divisor.\<close>

fun div_num :: "pyfloat \<Rightarrow> pyfloat \<Rightarrow> error + pyfloat" where
  "div_num a (Val b) =
     (if b = 0 then Inl ZeroDivisionError
      else (case a of Val x \<Rightarrow> Inr (Val (x / b)) | NaN \<Rightarrow> Inr NaN))"
| "div_num a NaN = Inr NaN"

text \<open>
  Python's \<^verbatim>\<open>round(x)\<close> of a float gives the nearest integer, a tie going to the
  even one; \<^verbatim>\<open>round(nan)\<close> raises ValueError.
\<close>

definition py_round :: "real \<Rightarrow> int" where
  "py_round x =
     (let f = \<lfloor>x\<rfloor>; d = x - of_int f
      in if d < 1 / 2 then f else if d > 1 / 2 then f + 1
         else if even f then f else f + 1)"

subsection \<open>Conversion of a cell to a float\<close>

text \<open>
  \<^verbatim>\<open>float(o)\<close>: a number converts to itself, NaN stays NaN, and a text goes through
  Python's float parser, which is not part of the repository and is taken as the
  parameter \<open>float_str\<close> (it returns the parsed float or raises ValueError).
\<close>

definition float_py :: "(string \<Rightarrow> error + pyfloat) \<Rightarrow> cell \<Rightarrow> error + pyfloat" where
  "float_py float_str c =
     (case c of Number r \<Rightarrow> Inr (Val r) | Null \<Rightarrow> Inr NaN | Text s \<Rightarrow> float_str s)"

section \<open>Odds Converter\<close>

text \<open>
  \<^verbatim>\<open>
  def american_to_prob(o):
      try:
          o = float(o)
          return (-o)/(-o+100) if o<0 else 100/(o+100)
      except:
          return np.nan
  \<close>
\<close>

definition american_to_prob_try :: "(string \<Rightarrow> error + pyfloat) \<Rightarrow> cell \<Rightarrow> error + pyfloat" where
  "american_to_prob_try float_str odds =
     (case float_py float_str odds of
        Inl e \<Rightarrow> Inl e
      | Inr x \<Rightarrow>
          if lt_num x (Val 0) then div_num (neg_num x) (add_num (neg_num x) (Val 100))
          else div_num (Val 100) (add_num x (Val 100)))"

definition american_to_prob :: "(string \<Rightarrow> error + pyfloat) \<Rightarrow> cell \<Rightarrow> pyfloat" where
  "american_to_prob float_str odds =
     (case american_to_prob_try float_str odds of Inl e \<Rightarrow> NaN | Inr y \<Rightarrow> y)"

text \<open>
  \<^verbatim>\<open>
  def in_band(o):
      try:
          o = float(o)
          return (o >= -115) and (o <= 200)
      except: return False
  \<close>
\<close>

definition in_band :: "(string \<Rightarrow> error + pyfloat) \<Rightarrow> cell \<Rightarrow> bool" where
  "in_band float_str odds =
     (case float_py float_str odds of
        Inl e \<Rightarrow> False
      | Inr x \<Rightarrow> ge_num x (Val (- 115)) \<and> le_num x (Val 200))"

section \<open>Binary64 arithmetic\<close>

text \<open>
  A finite double is a real number \<open>m * 2 ^ e\<close> with \<open>\<bar>m\<bar> < 2 ^ 53\<close> and
  \<open>- 1074 \<le> e\<close>, of magnitude below \<open>2 ^ 1024\<close>. \<open>expo x\<close> is the exponent of the
  doubles around \<open>x\<close> (that of the subnormal doubles below \<open>2 ^ - 1022\<close>), and \<open>rnd x\<close>
  is the multiple of \<open>2 ^ expo x\<close> nearest to \<open>x\<close>, a tie going to the even multiple:
  the rounding of IEEE 754 before overflow. The doubles are the fixed points of \<open>rnd\<close>.
\<close>

definition expo :: "real \<Rightarrow> int" where
  "expo x = max (\<lfloor>log 2 \<bar>x\<bar>\<rfloor> - 52) (- 1074)"

definition rnd :: "real \<Rightarrow> real" where
  "rnd x = of_int (py_round (x / 2 powi expo x)) * 2 powi expo x"

text \<open>
  A Python float is a finite double, an infinity or NaN. The sign of a zero is not
  kept: the comparisons, \<^verbatim>\<open>round\<close> and the test for a zero divisor of the script do
  not read it.
\<close>

datatype float64 = Fin real | PInf | NInf | NaN64

text \<open>
  The result of an operation whose exact value is \<open>x\<close>: the rounded value, or an
  infinity when the rounded value reaches \<open>2 ^ 1024\<close>.
\<close>

definition fl :: "real \<Rightarrow> float64" where
  "fl x = (if 2 ^ 1024 \<le> rnd x then PInf else if rnd x \<le> - (2 ^ 1024) then NInf else Fin (rnd x))"

fun fneg :: "float64 \<Rightarrow> float64" where
  "fneg (Fin a) = Fin (- a)"
| "fneg PInf = NInf"
| "fneg NInf = PInf"
| "fneg NaN64 = NaN64"

fun fadd :: "float64 \<Rightarrow> float64 \<Rightarrow> float64" where
  "fadd (Fin a) (Fin b) = fl (a + b)"
| "fadd NaN64 _ = NaN64"
| "fadd _ NaN64 = NaN64"
| "fadd PInf NInf = NaN64"
| "fadd NInf PInf = NaN64"
| "fadd PInf _ = PInf"
| "fadd NInf _ = NInf"
| "fadd (Fin a) PInf = PInf"
| "fadd (Fin a) NInf = NInf"

definition fsub :: "float64 \<Rightarrow> float64 \<Rightarrow> float64" where
  "fsub a b = fadd a (fneg b)"

fun fmul :: "float64 \<Rightarrow> float64 \<Rightarrow> float64" where
  "fmul (Fin a) (Fin b) = fl (a * b)"
| "fmul NaN64 _ = NaN64"
| "fmul _ NaN64 = NaN64"
| "fmul PInf (Fin b) = (if b = 0 then NaN64 else if 0 < b then PInf else NInf)"
| "fmul NInf (Fin b) = (if b = 0 then NaN64 else if 0 < b then NInf else PInf)"
| "fmul (Fin a) PInf = (if a = 0 then NaN64 else if 0 < a then PInf else NInf)"
| "fmul (Fin a) NInf = (if a = 0 then NaN64 else if 0 < a then NInf else PInf)"
| "fmul PInf PInf = PInf"
| "fmul PInf NInf = NInf"
| "fmul NInf PInf = NInf"
| "fmul NInf NInf = PInf"

text \<open>
  Python's \<^verbatim>\<open>/\<close> on floats raises ZeroDivisionError on a zero divisor, whatever the
  dividend; a finite dividend over an infinity gives zero.
\<close>

fun fdiv :: "float64 \<Rightarrow> float64 \<Rightarrow> error + float64" where
  "fdiv a (Fin b) =
     (if b = 0 then Inl ZeroDivisionError
      else case a of
        Fin x \<Rightarrow> Inr (fl (x / b))
      | PInf \<Rightarrow> Inr (if 0 < b then PInf else NInf)
      | NInf \<Rightarrow> Inr (if 0 < b then NInf else PInf)
      | NaN64 \<Rightarrow> Inr NaN64)"
| "fdiv a NaN64 = Inr NaN64"
| "fdiv a PInf = (case a of Fin x \<Rightarrow> Inr (Fin 0) | _ \<Rightarrow> Inr NaN64)"
| "fdiv a NInf = (case a of Fin x \<Rightarrow> Inr (Fin 0) | _ \<Rightarrow> Inr NaN64)"

text \<open>Comparisons with NaN are false.\<close>

fun flt :: "float64 \<Rightarrow> float64 \<Rightarrow> bool" where
  "flt (Fin a) (Fin b) = (a < b)"
| "flt NaN64 _ = False"
| "flt _ NaN64 = False"
| "flt NInf NInf = False"
| "flt NInf _ = True"
| "flt PInf _ = False"
| "flt (Fin a) PInf = True"
| "flt (Fin a) NInf = False"

fun fle :: "float64 \<Rightarrow> float64 \<Rightarrow> bool" where
  "fle (Fin a) (Fin b) = (a \<le> b)"
| "fle NaN64 _ = False"
| "fle _ NaN64 = False"
| "fle NInf _ = True"
| "fle PInf PInf = True"
| "fle PInf _ = False"
| "fle (Fin a) PInf = True"
| "fle (Fin a) NInf = False"

definition fge :: "float64 \<Rightarrow> float64 \<Rightarrow> bool" where
  "fge a b = fle b a"

text \<open>
  Python's \<^verbatim>\<open>round(x)\<close> of a float: the nearest integer of a finite value (an exact
  integer of any size), OverflowError on an infinity, ValueError on NaN.
\<close>

fun round64 :: "float64 \<Rightarrow> error + int" where
  "round64 (Fin x) = Inr (py_round x)"
| "round64 PInf = Inl OverflowError"
| "round64 NInf = Inl OverflowError"
| "round64 NaN64 = Inl ValueError"

text \<open>
  \<^verbatim>\<open>float(o)\<close> in binary64: a numeric cell holds a double and converts to itself, a
  missing cell is NaN, and a text goes through Python's float parser (the parameter
  \<open>float_str\<close>), which may return any float, the infinities and NaN included, or raise
  ValueError.
\<close>

definition float64_py :: "(string \<Rightarrow> error + float64) \<Rightarrow> cell \<Rightarrow> error + float64" where
  "float64_py float_str c =
     (case c of Number r \<Rightarrow> Inr (Fin r) | Null \<Rightarrow> Inr NaN64 | Text s \<Rightarrow> float_str s)"

text \<open>
  The Odds Converter in binary64: the body of \<^verbatim>\<open>american_to_prob\<close> with each operation
  rounded.
\<close>

definition american_to_prob_try64 ::
  "(string \<Rightarrow> error + float64) \<Rightarrow> cell \<Rightarrow> error + float64" where
  "american_to_prob_try64 float_str odds =
     (case float64_py float_str odds of
        Inl e \<Rightarrow> Inl e
      | Inr x \<Rightarrow>
          if flt x (Fin 0) then fdiv (fneg x) (fadd (fneg x) (Fin 100))
          else fdiv (Fin 100) (fadd x (Fin 100)))"

definition american_to_prob64 :: "(string \<Rightarrow> error + float64) \<Rightarrow> cell \<Rightarrow> float64" where
  "american_to_prob64 float_str odds =
     (case american_to_prob_try64 float_str odds of Inl e \<Rightarrow> NaN64 | Inr y \<Rightarrow> y)"

text \<open>
  The largest finite double, the largest double below 1 and the smallest double
  above 1.
\<close>

definition f64_max :: real where
  "f64_max = (2 ^ 53 - 1) * 2 powi 971"

definition below_one :: real where
  "below_one = 1 - 2 powi (- 53)"

definition above_one :: real where
  "above_one = 1 + 2 powi (- 52)"

section \<open>Price conversion\<close>

text \<open>
  \<^verbatim>\<open>
  def prob_to_american(p):
      if p<=0 or p>=1: return None
      dec = 1/p
      return round((dec-1)*100) if dec>=2 else round(-100/(dec-1))
  \<close>
  In binary64 \<^verbatim>\<open>1/p\<close> and \<^verbatim>\<open>(dec-1)*100\<close> overflow to infinity for a small positive
  \<open>p\<close>, and \<^verbatim>\<open>round\<close> of an infinity raises OverflowError.
\<close>

definition prob_to_american :: "float64 \<Rightarrow> error + int option" where
  "prob_to_american p =
     (if fle p (Fin 0) \<or> fge p (Fin 1) then Inr None
      else case fdiv (Fin 1) p of
        Inl e \<Rightarrow> Inl e
      | Inr dec \<Rightarrow>
          if fge dec (Fin 2)
          then (case round64 (fmul (fsub dec (Fin 1)) (Fin 100)) of
                  Inl e \<Rightarrow> Inl e | Inr i \<Rightarrow> Inr (Some i))
          else (case fdiv (Fin (- 100)) (fsub dec (Fin 1)) of
                  Inl e \<Rightarrow> Inl e
                | Inr q \<Rightarrow> (case round64 q of Inl e \<Rightarrow> Inl e | Inr i \<Rightarrow> Inr (Some i))))"

text \<open>
  The formula as the specification words it, read in double arithmetic, for a
  probability strictly between 0 and 1: decimal odds \<open>1/p\<close>; the price is
  round((decimal - 1) * 100) when the decimal odds are at least 2, and
  round(-100 / (decimal - 1)) when they are not. It is compared with
  \<open>prob_to_american\<close> below.
\<close>

definition price_of :: "real \<Rightarrow> int" where
  "price_of p =
     (let dec = rnd (1 / p)
      in if 2 \<le> dec then py_round (rnd (rnd (dec - 1) * 100))
         else py_round (rnd (- 100 / rnd (dec - 1))))"

text \<open>
  The formula overflows at \<open>p\<close>: the decimal odds are at least 2 and the double
  \<^verbatim>\<open>(dec-1)*100\<close> is infinite (its rounded value reaches \<open>2 ^ 1024\<close>).
\<close>

definition price_overflows :: "real \<Rightarrow> bool" where
  "price_overflows p \<longleftrightarrow> 2 \<le> rnd (1 / p) \<and> 2 ^ 1024 \<le> rnd (rnd (rnd (1 / p) - 1) * 100)"

section \<open>The table of offers\<close>

text \<open>
  One row of the loaded CSV, with the ten required columns. A data frame is the list of
  its rows; after the merge of line 40 its index is \<open>0, 1, \<dots>\<close>, so a row's label is
  its position in the list.
\<close>

record offer =
  game_id :: cell
  week :: cell
  player :: cell
  team :: cell
  market :: cell
  selection :: cell
  line :: cell
  price :: cell
  book :: cell
  kickoff_utc :: cell

text \<open>The columns the script adds: \<^verbatim>\<open>book_prob\<close>, \<^verbatim>\<open>fair_prob\<close>, \<^verbatim>\<open>ev_pct\<close>, \<^verbatim>\<open>in_band\<close>.\<close>

record row = offer +
  book_prob :: pyfloat
  fair_prob :: pyfloat
  ev_pct :: pyfloat
  in_band_col :: bool

text \<open>The candidate pool adds \<^verbatim>\<open>game_key\<close>.\<close>

record pool_row = row +
  game_key :: string

text \<open>\<^verbatim>\<open>gcols = ["player","team","market","selection","line","kickoff_utc"]\<close>\<close>

type_synonym key = "cell \<times> cell \<times> cell \<times> cell \<times> cell \<times> cell"

definition gcols :: "'a offer_scheme \<Rightarrow> key" where
  "gcols r = (player r, team r, market r, selection r, line r, kickoff_utc r)"

definition key_has_null :: "key \<Rightarrow> bool" where
  "key_has_null k =
     (case k of (a, b, c, d, e, f) \<Rightarrow>
        a = Null \<or> b = Null \<or> c = Null \<or> d = Null \<or> e = Null \<or> f = Null)"

text \<open>
  \<^verbatim>\<open>df = df.dropna(subset=["player","market","selection","price","book"])\<close>

  The normalisation of \<^verbatim>\<open>book\<close> on line 35 (upper case, stripped) changes a column
  that nothing below reads except the printed report; it is left out.
\<close>

definition dropna_required :: "offer list \<Rightarrow> offer list" where
  "dropna_required df =
     filter (\<lambda>r. player r \<noteq> Null \<and> market r \<noteq> Null \<and> selection r \<noteq> Null
               \<and> price r \<noteq> Null \<and> book r \<noteq> Null) df"

section \<open>Consensus Aggregator and Edge Calculator\<close>

text \<open>The median of pandas skips NaN; the median of no value is NaN.\<close>

fun defined_vals :: "pyfloat list \<Rightarrow> real list" where
  "defined_vals [] = []"
| "defined_vals (Val v # xs) = v # defined_vals xs"
| "defined_vals (NaN # xs) = defined_vals xs"

definition median_py :: "pyfloat list \<Rightarrow> pyfloat" where
  "median_py xs =
     (let vs = sort (defined_vals xs); n = length vs
      in if n = 0 then NaN
         else if odd n then Val (vs ! (n div 2))
         else Val ((vs ! (n div 2 - 1) + vs ! (n div 2)) / 2))"

text \<open>
  \<^verbatim>\<open>
  df["book_prob"] = df["price"].apply(american_to_prob)
  fair = df.groupby(gcols, dropna=False)["book_prob"].median().rename("fair_prob")
  df = df.merge(fair, on=gcols, how="left")
  df["ev_pct"] = (df["fair_prob"] - df["book_prob"]) * 100
  df["in_band"] = df["price"].apply(in_band)
  \<close>
  With \<^verbatim>\<open>dropna=False\<close> a missing key field is a group value of its own, and the merge
  of pandas matches missing keys with each other, so every row receives the median of
  the rows that have its key.
\<close>

definition book_prob_col :: "(string \<Rightarrow> error + pyfloat) \<Rightarrow> offer list \<Rightarrow> pyfloat list" where
  "book_prob_col float_str df = map (\<lambda>r. american_to_prob float_str (price r)) df"

definition fair :: "(string \<Rightarrow> error + pyfloat) \<Rightarrow> offer list \<Rightarrow> key \<Rightarrow> pyfloat" where
  "fair float_str df k =
     median_py (map snd (filter (\<lambda>(r, b). gcols r = k) (zip df (book_prob_col float_str df))))"

definition annotate :: "(string \<Rightarrow> error + pyfloat) \<Rightarrow> offer list \<Rightarrow> row list" where
  "annotate float_str df =
     map (\<lambda>r.
        let b = american_to_prob float_str (price r);
            f = fair float_str df (gcols r)
        in offer.extend r
             (row.fields b f (mul_num (sub_num f b) (Val 100)) (in_band float_str (price r))))
       df"

section \<open>Best-Offer Selector\<close>

text \<open>
  \<^verbatim>\<open>
  idx = df.groupby(gcols)["ev_pct"].idxmax()
  best = df.loc[idx].copy()
  \<close>
  This \<^verbatim>\<open>groupby\<close> has the default \<^verbatim>\<open>dropna=True\<close>: a row with a missing key
  field belongs to no group. \<^verbatim>\<open>idxmax\<close> gives, for each group, the label of the first
  row holding the largest defined value; for a group without a defined value it gives
  NaN, and \<^verbatim>\<open>df.loc\<close> raises KeyError on a label list holding NaN (a later pandas
  raises ValueError in \<^verbatim>\<open>idxmax\<close> itself; the run aborts either way).

  pandas lists the groups in sorted key order; the model lists them in the order
  \<open>remdups\<close> leaves, and nothing below depends on that order.
\<close>

fun idxmax_from :: "(nat \<times> real) option \<Rightarrow> (nat \<times> pyfloat) list \<Rightarrow> (nat \<times> real) option" where
  "idxmax_from acc [] = acc"
| "idxmax_from acc ((i, NaN) # xs) = idxmax_from acc xs"
| "idxmax_from None ((i, Val v) # xs) = idxmax_from (Some (i, v)) xs"
| "idxmax_from (Some (j, m)) ((i, Val v) # xs) =
     idxmax_from (if m < v then Some (i, v) else Some (j, m)) xs"

definition idxmax_py :: "(nat \<times> pyfloat) list \<Rightarrow> nat option" where
  "idxmax_py xs = map_option fst (idxmax_from None xs)"

definition group_keys :: "'a row_scheme list \<Rightarrow> key list" where
  "group_keys df = remdups (filter (\<lambda>k. \<not> key_has_null k) (map gcols df))"

definition group_ev :: "'a row_scheme list \<Rightarrow> key \<Rightarrow> (nat \<times> pyfloat) list" where
  "group_ev df k =
     map (\<lambda>(i, r). (i, ev_pct r)) (filter (\<lambda>(i, r). gcols r = k) (enumerate 0 df))"

definition groupby_idxmax :: "'a row_scheme list \<Rightarrow> nat option list" where
  "groupby_idxmax df = map (\<lambda>k. idxmax_py (group_ev df k)) (group_keys df)"

definition loc :: "'a list \<Rightarrow> nat option list \<Rightarrow> error + 'a list" where
  "loc df idx =
     (if list_all (\<lambda>i. case i of None \<Rightarrow> False | Some j \<Rightarrow> j < length df) idx
      then Inr (map (\<lambda>i. df ! the i) idx)
      else Inl KeyError)"

definition best_py :: "'a row_scheme list \<Rightarrow> error + 'a row_scheme list" where
  "best_py df = loc df (groupby_idxmax df)"

section \<open>Band and threshold filter, candidate pool\<close>

text \<open>
  \<^verbatim>\<open>sort_values(..., ascending=False)\<close>: descending, NaN last. pandas leaves the
  order of equal values to its sorting algorithm; the model is an insertion sort that
  keeps them in their given order, and nothing below depends on the order of equal values.
\<close>

fun desc_ge :: "pyfloat \<Rightarrow> pyfloat \<Rightarrow> bool" where
  "desc_ge (Val a) (Val b) = (b \<le> a)"
| "desc_ge NaN (Val b) = False"
| "desc_ge _ NaN = True"

fun insert_desc :: "'a row_scheme \<Rightarrow> 'a row_scheme list \<Rightarrow> 'a row_scheme list" where
  "insert_desc r [] = [r]"
| "insert_desc r (s # ss) =
     (if desc_ge (ev_pct s) (ev_pct r) then s # insert_desc r ss else r # s # ss)"

definition sort_values_desc :: "'a row_scheme list \<Rightarrow> 'a row_scheme list" where
  "sort_values_desc df = fold insert_desc df []"

text \<open>
  \<^verbatim>\<open>
  singles = best[(best["in_band"]) & (best["ev_pct"]>=2.0)].copy()
  singles = singles.sort_values(["ev_pct"], ascending=False).head(6)
  \<close>
\<close>

definition singles_py :: "'a row_scheme list \<Rightarrow> 'a row_scheme list" where
  "singles_py best =
     take 6 (sort_values_desc
       (filter (\<lambda>r. in_band_col r \<and> ge_num (ev_pct r) (Val 2)) best))"

text \<open>
  \<^verbatim>\<open>
  best_pool = best[best["ev_pct"]>=1.0].sort_values("ev_pct", ascending=False).head(40).copy()
  best_pool["game_key"] = best_pool["game_id"].astype(str)
  \<close>
  The text pandas gives a cell (\<^verbatim>\<open>astype(str)\<close>) is the parameter \<open>str_of\<close>.
\<close>

definition best_pool_py :: "(cell \<Rightarrow> string) \<Rightarrow> row list \<Rightarrow> pool_row list" where
  "best_pool_py str_of best =
     map (\<lambda>r. row.extend r (pool_row.fields (str_of (game_id r))))
       (take 40 (sort_values_desc (filter (\<lambda>r. ge_num (ev_pct r) (Val 1)) best)))"

section \<open>Parlay Builder\<close>

text \<open>
  \<^verbatim>\<open>
  def build_parlay(pool, n):
      chosen, seen = [], set()
      for _, r in pool.iterrows():
          if r["game_key"] in seen: continue
          chosen.append(r); seen.add(r["game_key"])
          if len(chosen)==n: break
      return pd.DataFrame(chosen)
  \<close>
\<close>

fun build_parlay_loop ::
  "'a pool_row_scheme list \<Rightarrow> int \<Rightarrow> 'a pool_row_scheme list \<Rightarrow> string set
     \<Rightarrow> 'a pool_row_scheme list" where
  "build_parlay_loop [] n chosen seen = chosen"
| "build_parlay_loop (r # rs) n chosen seen =
     (if game_key r \<in> seen then build_parlay_loop rs n chosen seen
      else if int (length (chosen @ [r])) = n then chosen @ [r]
      else build_parlay_loop rs n (chosen @ [r]) (insert (game_key r) seen))"

definition build_parlay :: "'a pool_row_scheme list \<Rightarrow> int \<Rightarrow> 'a pool_row_scheme list" where
  "build_parlay pool n = build_parlay_loop pool n [] {}"

text \<open>
  The first-fit scan as the specification words it: scan the pool in order with the set
  of used game keys, accept a row whose key is unused, stop once the target count is
  reached or the pool is exhausted. It is compared with \<open>build_parlay\<close> below.
\<close>

fun first_fit :: "'a pool_row_scheme list \<Rightarrow> nat \<Rightarrow> string set \<Rightarrow> 'a pool_row_scheme list" where
  "first_fit [] n used = []"
| "first_fit (r # rs) n used =
     (if n = 0 then []
      else if game_key r \<in> used then first_fit rs n used
      else r # first_fit rs (n - 1) (insert (game_key r) used))"

text \<open>
  \<^verbatim>\<open>
  def parlay_metrics(legs):
      if legs.empty: return (None, None)
      ip = float(np.prod(legs["book_prob"].astype(float)))
      return ip, prob_to_american(ip)
  \<close>
  \<^verbatim>\<open>astype(float)\<close> gives the doubles of the column: \<open>float64_of\<close> is the identity on
  a double and takes an idealised column value to the nearest double. \<^verbatim>\<open>np.prod\<close> of a
  pandas Series is the Series' own \<^verbatim>\<open>prod\<close>, which skips NaN (it multiplies with NaN
  replaced by 1) and multiplies the doubles from left to right, each product rounded.
\<close>

fun float64_of :: "pyfloat \<Rightarrow> float64" where
  "float64_of (Val r) = fl r"
| "float64_of NaN = NaN64"

definition prod_skipna :: "float64 list \<Rightarrow> float64" where
  "prod_skipna xs = foldl fmul (Fin 1) (map (\<lambda>x. if x = NaN64 then Fin 1 else x) xs)"

definition parlay_metrics :: "'a row_scheme list \<Rightarrow> error + (float64 option \<times> int option)" where
  "parlay_metrics legs =
     (if legs = [] then Inr (None, None)
      else let ip = prod_skipna (map (\<lambda>r. float64_of (book_prob r)) legs)
           in case prob_to_american ip of
                Inl e \<Rightarrow> Inl e
              | Inr us \<Rightarrow> Inr (Some ip, us))"

text \<open>
  The product of the legs' probabilities as the specification words it, read in double
  arithmetic: the values multiplied in order, each product rounded.
\<close>

definition prod_seq :: "real list \<Rightarrow> real" where
  "prod_seq bs = foldl (\<lambda>a b. rnd (a * b)) 1 bs"

section \<open>The run\<close>

text \<open>
  Lines 34 to 80 in one function: what the report is printed from, or the exception
  that ends the run.
  \<^verbatim>\<open>
  parlay3 = build_parlay(best_pool, 3)
  parlay4 = build_parlay(best_pool.iloc[3:], 4)
  ip3, us3 = parlay_metrics(parlay3)
  ip4, us4 = parlay_metrics(parlay4)
  \<close>
\<close>

record report =
  singles :: "row list"
  parlay3 :: "pool_row list"
  parlay4 :: "pool_row list"
  metrics3 :: "float64 option \<times> int option"
  metrics4 :: "float64 option \<times> int option"

definition analyze ::
  "(string \<Rightarrow> error + pyfloat) \<Rightarrow> (cell \<Rightarrow> string) \<Rightarrow> offer list \<Rightarrow> error + report" where
  "analyze float_str str_of df0 =
     (let df = annotate float_str (dropna_required df0)
      in case best_py df of
           Inl e \<Rightarrow> Inl e
         | Inr best \<Rightarrow>
             (let best_pool = best_pool_py str_of best;
                  p3 = build_parlay best_pool 3;
                  p4 = build_parlay (drop 3 best_pool) 4
              in case parlay_metrics p3 of
                   Inl e \<Rightarrow> Inl e
                 | Inr m3 \<Rightarrow>
                     (case parlay_metrics p4 of
                        Inl e \<Rightarrow> Inl e
                      | Inr m4 \<Rightarrow>
                          Inr \<lparr>singles = singles_py best, parlay3 = p3, parlay4 = p4,
                               metrics3 = m3, metrics4 = m4\<rparr>)))"

text \<open>
  A text parser that rejects every text: Python's \<^verbatim>\<open>float\<close> on tables whose texts
  are not numerals (such as \<^verbatim>\<open>"abc"\<close>). It instantiates \<open>float_str\<close> in the concrete
  runs below; \<open>reject_text64\<close> is the same parser for the binary64 converter.
\<close>

definition reject_text :: "string \<Rightarrow> error + pyfloat" where
  "reject_text s = Inl ValueError"

text \<open>
  The text of a cell, for tables whose \<^verbatim>\<open>game_id\<close> column holds texts (the text of
  a text is itself). It instantiates \<open>str_of\<close> in the concrete runs below.
\<close>

definition reject_text64 :: "string \<Rightarrow> error + float64" where
  "reject_text64 s = Inl ValueError"

definition str_text :: "cell \<Rightarrow> string" where
  "str_text c = (case c of Text s \<Rightarrow> s | Number r \<Rightarrow> ''number'' | Null \<Rightarrow> ''nan'')"

section \<open>Auxiliary predicates\<close>

text \<open>
  An entry of a group is no larger (or smaller) than \<open>m\<close>, or undefined: used to say
  what \<open>idxmax_from\<close> passes over.
\<close>

definition le_or_nan :: "real \<Rightarrow> nat \<times> pyfloat \<Rightarrow> bool" where
  "le_or_nan m p = (case snd p of NaN \<Rightarrow> True | Val v \<Rightarrow> v \<le> m)"

definition lt_or_nan :: "real \<Rightarrow> nat \<times> pyfloat \<Rightarrow> bool" where
  "lt_or_nan m p = (case snd p of NaN \<Rightarrow> True | Val v \<Rightarrow> v < m)"

section \<open>Sample inputs\<close>

text \<open>
  Small tables for the concrete runs below. \<open>sample_offer\<close> fills the columns that
  play no part with fixed values; \<open>sample_leg\<close> is a row of a candidate pool.
\<close>

definition sample_offer :: "string \<Rightarrow> string \<Rightarrow> cell \<Rightarrow> cell \<Rightarrow> string \<Rightarrow> offer" where
  "sample_offer g pl tm pr bk =
     \<lparr>game_id = Text g, week = Number 1, player = Text pl, team = tm,
      market = Text ''rec_yds'', selection = Text ''over'', line = Number 50,
      price = pr, book = Text bk, kickoff_utc = Text ''2024-09-08T17:00Z''\<rparr>"

text \<open>Two propositions, each quoted by two books at +100 and -150.\<close>

definition tie_input :: "offer list" where
  "tie_input =
     [sample_offer ''g1'' ''A'' (Text ''KC'') (Number 100) ''X'',
      sample_offer ''g1'' ''A'' (Text ''KC'') (Number (- 150)) ''Y'',
      sample_offer ''g2'' ''B'' (Text ''SF'') (Number 100) ''X'',
      sample_offer ''g2'' ''B'' (Text ''SF'') (Number (- 150)) ''Y'']"

text \<open>Two single-book propositions; the second has no team.\<close>

definition null_team_input :: "offer list" where
  "null_team_input =
     [sample_offer ''g1'' ''A'' (Text ''KC'') (Number (- 110)) ''X'',
      sample_offer ''g2'' ''B'' Null (Number (- 110)) ''X'']"

text \<open>One proposition whose only price is the text \<^verbatim>\<open>abc\<close>.\<close>

definition unparsable_input :: "offer list" where
  "unparsable_input = [sample_offer ''g1'' ''A'' (Text ''KC'') (Text ''abc'') ''X'']"

text \<open>One offer without a price: the required-field filter leaves an empty table.\<close>

definition missing_price_input :: "offer list" where
  "missing_price_input = [sample_offer ''g1'' ''A'' (Text ''KC'') Null ''X'']"

definition sample_leg :: "string \<Rightarrow> real \<Rightarrow> real \<Rightarrow> pool_row" where
  "sample_leg g bp fp =
     row.extend
       (offer.extend (sample_offer g ''A'' (Text ''KC'') (Number 100) ''X'')
          (row.fields (Val bp) (Val fp) (Val ((fp - bp) * 100)) True))
       (pool_row.fields g)"

section \<open>Properties of rounding\<close>

lemma py_round_cases: "py_round x = \<lfloor>x\<rfloor> \<or> py_round x = \<lfloor>x\<rfloor> + 1"
  by (simp add: py_round_def Let_def)

lemma py_round_upper: "of_int (py_round x) \<le> x + 1 / 2"
  unfolding py_round_def Let_def by (auto; linarith)

lemma py_round_lower: "x - 1 / 2 \<le> of_int (py_round x)"
  unfolding py_round_def Let_def by (auto; linarith)

lemma py_round_ge: "of_int n \<le> x \<Longrightarrow> n \<le> py_round x"
proof -
  assume "of_int n \<le> x"
  then have "n \<le> \<lfloor>x\<rfloor>" by (simp add: le_floor_iff)
  with py_round_cases [of x] show ?thesis by auto
qed

lemma py_round_le: "x \<le> of_int n \<Longrightarrow> py_round x \<le> n"
proof (cases "x = of_int \<lfloor>x\<rfloor>")
  case True
  assume "x \<le> of_int n"
  with True have "\<lfloor>x\<rfloor> \<le> n" by linarith
  moreover from True have "py_round x = \<lfloor>x\<rfloor>" by (simp add: py_round_def Let_def)
  ultimately show ?thesis by simp
next
  case False
  assume "x \<le> of_int n"
  with False have "\<lfloor>x\<rfloor> < n" by linarith
  with py_round_cases [of x] show ?thesis by auto
qed

lemma py_round_abs: "\<bar>of_int (py_round x) - x\<bar> \<le> 1 / 2"
  using py_round_upper [of x] py_round_lower [of x] by linarith

lemma py_round_of_int [simp]: "py_round (of_int n) = n"
  by (simp add: py_round_def)

lemma py_round_0 [simp]: "py_round 0 = 0"
  using py_round_of_int [of 0] by simp

lemma py_round_1 [simp]: "py_round 1 = 1"
  using py_round_of_int [of 1] by simp

lemma py_round_numeral [simp]: "py_round (numeral k) = numeral k"
  using py_round_of_int [of "numeral k"] by simp

lemma py_round_neg_numeral [simp]: "py_round (- numeral k) = - numeral k"
  using py_round_of_int [of "- numeral k"] by simp

lemma py_round_mono: "x \<le> y \<Longrightarrow> py_round x \<le> py_round y"
proof -
  assume xy: "x \<le> y"
  then have f: "\<lfloor>x\<rfloor> \<le> \<lfloor>y\<rfloor>" by (rule floor_mono)
  show ?thesis
  proof (cases "\<lfloor>x\<rfloor> = \<lfloor>y\<rfloor>")
    case True
    with xy have "x - of_int \<lfloor>x\<rfloor> \<le> y - of_int \<lfloor>y\<rfloor>" by simp
    with True show ?thesis by (auto simp: py_round_def Let_def)
  next
    case False
    with f have "\<lfloor>x\<rfloor> + 1 \<le> \<lfloor>y\<rfloor>" by simp
    moreover have "py_round x \<le> \<lfloor>x\<rfloor> + 1" using py_round_cases [of x] by auto
    moreover have "\<lfloor>y\<rfloor> \<le> py_round y" using py_round_cases [of y] by auto
    ultimately show ?thesis by linarith
  qed
qed

lemma py_round_minus: "py_round (- x) = - py_round x"
proof (cases "x = of_int \<lfloor>x\<rfloor>")
  case True
  then obtain n where "x = of_int n" ..
  then have "- x = of_int (- n)" by simp
  then have "py_round (- x) = - n" by (simp only: py_round_of_int)
  with \<open>x = of_int n\<close> show ?thesis by simp
next
  case False
  then have fl: "\<lfloor>- x\<rfloor> = - \<lfloor>x\<rfloor> - 1"
    by (simp add: floor_minus ceiling_altdef)
  define f where "f = \<lfloor>x\<rfloor>"
  define d where "d = x - of_int f"
  have "of_int f \<le> x" "x < of_int f + 1" unfolding f_def by linarith+
  moreover from False have "x \<noteq> of_int f" by (simp add: f_def)
  ultimately have d: "0 < d" "d < 1" unfolding d_def by linarith+
  have dm: "- x - of_int (- f - 1) = 1 - d" by (simp add: d_def)
  have "py_round x = (if d < 1 / 2 then f else if d > 1 / 2 then f + 1
         else if even f then f else f + 1)"
    by (simp add: py_round_def Let_def f_def d_def)
  moreover have "py_round (- x) = (if 1 - d < 1 / 2 then - f - 1 else if 1 - d > 1 / 2 then - f
         else if even (- f - 1) then - f - 1 else - f)"
    using fl dm by (simp add: py_round_def Let_def f_def)
  ultimately show ?thesis using d by (auto simp: field_simps)
qed

lemma py_round_near:
  assumes "0 \<le> d" and "d < 1 / 2"
  shows "py_round (of_int j + d) = j"
proof -
  have "\<lfloor>of_int j + d\<rfloor> = j" using assms by (simp add: floor_eq_iff)
  then show ?thesis using assms by (simp add: py_round_def Let_def)
qed

lemma py_round_gt_half:
  assumes "of_int n + 1 / 2 < x"
  shows "n + 1 \<le> py_round x"
proof -
  have "of_int n \<le> x" using assms by linarith
  then have f: "n \<le> \<lfloor>x\<rfloor>" by (simp add: le_floor_iff)
  show ?thesis
  proof (cases "\<lfloor>x\<rfloor> = n")
    case True
    then have "x - of_int \<lfloor>x\<rfloor> > 1 / 2" using assms by simp
    then have "py_round x = \<lfloor>x\<rfloor> + 1" by (simp add: py_round_def Let_def)
    with True show ?thesis by simp
  next
    case False
    with f have "n + 1 \<le> \<lfloor>x\<rfloor>" by simp
    with py_round_cases [of x] show ?thesis by auto
  qed
qed

section \<open>Rounding to a double\<close>

subsection \<open>Powers of two and the exponent\<close>

lemma two_powi_pos [simp]: "0 < (2::real) powi k"
  by simp

lemma two_powi_mono: "j \<le> k \<Longrightarrow> (2::real) powi j \<le> 2 powi k"
  by (rule power_int_increasing) simp_all

lemma two_powi_strict_mono: "j < k \<Longrightarrow> (2::real) powi j < 2 powi k"
  by (rule power_int_strict_increasing) simp_all

lemma two_powi_less_cancel: "(2::real) powi j < 2 powi k \<Longrightarrow> j < k"
  using two_powi_mono [of k j] by (cases "j < k") auto

lemma floor_log2_bounds:
  assumes "x \<noteq> 0"
  shows "2 powi \<lfloor>log 2 \<bar>x\<bar>\<rfloor> \<le> \<bar>x\<bar>" and "\<bar>x\<bar> < 2 powi (\<lfloor>log 2 \<bar>x\<bar>\<rfloor> + 1)"
proof -
  have pos: "0 < \<bar>x\<bar>" using assms by simp
  have "2 powr (of_int \<lfloor>log 2 \<bar>x\<bar>\<rfloor>) \<le> \<bar>x\<bar> \<and> \<bar>x\<bar> < 2 powr (of_int \<lfloor>log 2 \<bar>x\<bar>\<rfloor> + 1)"
    using floor_log_eq_powr_iff [of "\<bar>x\<bar>" 2 "\<lfloor>log 2 \<bar>x\<bar>\<rfloor>"] pos by simp
  moreover have "of_int \<lfloor>log 2 \<bar>x\<bar>\<rfloor> + 1 = (of_int (\<lfloor>log 2 \<bar>x\<bar>\<rfloor> + 1) :: real)" by simp
  ultimately show "2 powi \<lfloor>log 2 \<bar>x\<bar>\<rfloor> \<le> \<bar>x\<bar>" and "\<bar>x\<bar> < 2 powi (\<lfloor>log 2 \<bar>x\<bar>\<rfloor> + 1)"
    by (simp_all only: powr_real_of_int' [of 2, simplified, symmetric]) 
qed

lemma floor_log2_eqI:
  assumes "2 powi l \<le> \<bar>x\<bar>" and "\<bar>x\<bar> < 2 powi (l + 1)"
  shows "\<lfloor>log 2 \<bar>x\<bar>\<rfloor> = l"
proof -
  have pos: "0 < \<bar>x\<bar>" using assms(1) two_powi_pos [of l] by linarith
  have "2 powr (of_int l) \<le> \<bar>x\<bar> \<and> \<bar>x\<bar> < 2 powr (of_int l + 1)"
    using assms powr_real_of_int' [of 2 l] powr_real_of_int' [of 2 "l + 1"] by simp
  then show ?thesis
    using floor_log_eq_powr_iff [of "\<bar>x\<bar>" 2 l] pos by simp
qed

lemma expo_ge: "- 1074 \<le> expo x"
  by (simp add: expo_def)

lemma expo_minus [simp]: "expo (- x) = expo x"
  by (simp add: expo_def)

lemma expo_upper: "\<bar>x\<bar> < 2 powi (expo x + 53)"
proof (cases "x = 0")
  case True
  then show ?thesis by simp
next
  case False
  have "\<lfloor>log 2 \<bar>x\<bar>\<rfloor> + 1 \<le> expo x + 53" by (simp add: expo_def)
  then have "(2::real) powi (\<lfloor>log 2 \<bar>x\<bar>\<rfloor> + 1) \<le> 2 powi (expo x + 53)"
    by (rule two_powi_mono)
  with floor_log2_bounds(2) [OF False] show ?thesis by linarith
qed

lemma expo_lower:
  assumes "x \<noteq> 0" and "- 1074 < expo x"
  shows "2 powi (expo x + 52) \<le> \<bar>x\<bar>"
proof -
  from assms(2) have "expo x = \<lfloor>log 2 \<bar>x\<bar>\<rfloor> - 52" by (simp add: expo_def max_def split: if_splits)
  then have "expo x + 52 = \<lfloor>log 2 \<bar>x\<bar>\<rfloor>" by simp
  with floor_log2_bounds(1) [OF assms(1)] show ?thesis by simp
qed

lemma expoI:
  assumes "- 1074 \<le> e" and "2 powi (e + 52) \<le> \<bar>x\<bar>" and "\<bar>x\<bar> < 2 powi (e + 53)"
  shows "expo x = e"
proof -
  have "\<lfloor>log 2 \<bar>x\<bar>\<rfloor> = e + 52"
    using floor_log2_eqI [of "e + 52" x] assms(2,3) by (simp add: add.commute add.left_commute)
  with assms(1) show ?thesis by (simp add: expo_def)
qed

lemma expo_le:
  assumes "x \<noteq> 0" and "- 1074 \<le> e" and "\<bar>x\<bar> < 2 powi (e + 53)"
  shows "expo x \<le> e"
proof -
  have "2 powi \<lfloor>log 2 \<bar>x\<bar>\<rfloor> < (2::real) powi (e + 53)"
    using floor_log2_bounds(1) [OF assms(1)] assms(3) by linarith
  then have "\<lfloor>log 2 \<bar>x\<bar>\<rfloor> < e + 53" by (rule two_powi_less_cancel)
  with assms(2) show ?thesis by (simp add: expo_def)
qed

lemma expo_mono:
  assumes "x \<noteq> 0" and "\<bar>x\<bar> \<le> \<bar>y\<bar>"
  shows "expo x \<le> expo y"
proof -
  from assms have "\<bar>x\<bar> < 2 powi (expo y + 53)" using expo_upper [of y] by linarith
  then show ?thesis using assms(1) expo_ge [of y] by (intro expo_le)
qed

lemma expo_lower_normal:
  assumes "2 powi (- 1022) \<le> \<bar>x\<bar>"
  shows "2 powi (expo x + 52) \<le> \<bar>x\<bar>"
proof -
  have x0: "x \<noteq> 0" using assms two_powi_pos [of "- 1022"] by auto
  have "(2::real) powi (- 1022) < 2 powi (\<lfloor>log 2 \<bar>x\<bar>\<rfloor> + 1)"
    using assms floor_log2_bounds(2) [OF x0] by linarith
  then have "- 1022 < \<lfloor>log 2 \<bar>x\<bar>\<rfloor> + 1" by (rule two_powi_less_cancel)
  then have "expo x + 52 = \<lfloor>log 2 \<bar>x\<bar>\<rfloor>" unfolding expo_def by linarith
  with floor_log2_bounds(1) [OF x0] show ?thesis by simp
qed

subsection \<open>The doubles are the fixed points of rounding\<close>

lemma rnd_0 [simp]: "rnd 0 = 0"
  by (simp add: rnd_def)

lemma rnd_minus: "rnd (- x) = - rnd x"
  by (simp add: rnd_def py_round_minus)

lemma rnd_fix:
  assumes "- 1074 \<le> k" and "\<bar>m\<bar> < 2 ^ 53"
  shows "rnd (of_int m * 2 powi k) = of_int m * 2 powi k"
proof (cases "m = 0")
  case True
  then show ?thesis by simp
next
  case False
  define x :: real where "x = of_int m * 2 powi k"
  have x0: "x \<noteq> 0" using False by (simp add: x_def)
  have "\<bar>x\<bar> = of_int \<bar>m\<bar> * 2 powi k" by (simp add: x_def abs_mult)
  also have "\<dots> < 2 ^ 53 * 2 powi k"
  proof -
    from assms(2) have "(of_int \<bar>m\<bar> :: real) < of_int (2 ^ 53)" by (simp only: of_int_less_iff)
    then show ?thesis by simp
  qed
  also have "\<dots> = 2 powi (k + 53)" by (simp add: power_int_add)
  finally have "expo x \<le> k" using x0 assms(1) by (intro expo_le)
  then obtain n where n: "k - expo x = int n" using zero_le_imp_eq_int [of "k - expo x"] by auto
  have "x / 2 powi expo x = of_int m * 2 powi (k - expo x)"
    by (simp add: x_def power_int_diff)
  also have "\<dots> = of_int (m * 2 ^ n)" by (simp add: n)
  finally have "py_round (x / 2 powi expo x) = m * 2 ^ n" by (simp only: py_round_of_int)
  then have "rnd x = of_int (m * 2 ^ n) * 2 powi expo x" by (simp add: rnd_def)
  also have "\<dots> = of_int m * (2 powi (k - expo x) * 2 powi expo x)" by (simp add: n)
  also have "\<dots> = x" by (simp add: x_def power_int_diff)
  finally show ?thesis by (simp add: x_def)
qed

lemma rnd_two_powi: "- 1074 \<le> k \<Longrightarrow> rnd (2 powi k) = 2 powi k"
  using rnd_fix [of k 1] by simp

lemma rnd_of_int: "\<bar>n\<bar> \<le> 2 ^ 53 \<Longrightarrow> rnd (of_int n) = of_int n"
proof (cases "\<bar>n\<bar> < 2 ^ 53")
  case True
  then show ?thesis using rnd_fix [of 0 n] by simp
next
  case False
  assume "\<bar>n\<bar> \<le> 2 ^ 53"
  with False have "n = 2 ^ 53 \<or> n = - (2 ^ 53)" by linarith
  then show ?thesis
    using rnd_two_powi [of 53] rnd_minus [of "2 powi 53"] by auto
qed

lemma rnd_100 [simp]: "rnd 100 = 100"
  using rnd_of_int [of 100] by simp

lemma rnd_1 [simp]: "rnd 1 = 1"
  using rnd_of_int [of 1] by simp

lemma rnd_200 [simp]: "rnd 200 = 200"
  using rnd_of_int [of 200] by simp

lemma rnd_half [simp]: "rnd (1 / 2) = 1 / 2"
  using rnd_fix [of "- 1" 1] by simp

lemma rnd_absorb:
  assumes "- 1074 \<le> e" and "2 ^ 52 \<le> j" and "j < 2 ^ 53"
    and "0 \<le> t" and "t < 2 powi e / 2"
  shows "rnd (of_int j * 2 powi e + t) = of_int j * 2 powi e"
proof -
  define y where "y = of_int j * 2 powi e + t"
  have j: "(of_int (2 ^ 52) :: real) \<le> of_int j" "(of_int j :: real) \<le> of_int (2 ^ 53 - 1)"
    using assms(2,3) by (simp_all only: of_int_le_iff)
  have lo: "2 powi (e + 52) \<le> y"
  proof -
    have "2 powi (e + 52) = of_int (2 ^ 52) * (2::real) powi e" by (simp add: power_int_add)
    also have "\<dots> \<le> of_int j * 2 powi e" using j(1) by (intro mult_right_mono) simp_all
    finally show ?thesis using assms(4) by (simp add: y_def)
  qed
  have hi: "y < 2 powi (e + 53)"
  proof -
    have "of_int j * 2 powi e \<le> of_int (2 ^ 53 - 1) * (2::real) powi e"
      using j(2) by (intro mult_right_mono) simp_all
    also have "\<dots> = 2 powi (e + 53) - 2 powi e" by (simp add: power_int_add algebra_simps)
    finally show ?thesis using assms(5) two_powi_pos [of e] unfolding y_def by linarith
  qed
  have y0: "0 < y" using lo two_powi_pos [of "e + 52"] by linarith
  have e: "expo y = e" using assms(1) lo hi y0 by (intro expoI) simp_all
  have "y / 2 powi e = of_int j + t / 2 powi e" by (simp add: y_def add_divide_distrib)
  moreover have "0 \<le> t / 2 powi e" "t / 2 powi e < 1 / 2"
    using assms(4,5) by (simp_all add: field_simps)
  ultimately have "py_round (y / 2 powi e) = j" by (simp add: py_round_near)
  then show ?thesis by (simp add: rnd_def e flip: y_def)
qed

subsection \<open>Error bounds\<close>

lemma rnd_nonneg: "0 \<le> x \<Longrightarrow> 0 \<le> rnd x"
proof -
  assume "0 \<le> x"
  then have "of_int 0 \<le> x / 2 powi expo x" by simp
  then have "0 \<le> py_round (x / 2 powi expo x)" by (rule py_round_ge)
  then show ?thesis by (simp add: rnd_def)
qed

lemma rnd_err: "\<bar>rnd x - x\<bar> \<le> 2 powi expo x / 2"
proof -
  have "rnd x - x = (of_int (py_round (x / 2 powi expo x)) - x / 2 powi expo x) * 2 powi expo x"
    by (simp add: rnd_def algebra_simps)
  then have "\<bar>rnd x - x\<bar> = \<bar>of_int (py_round (x / 2 powi expo x)) - x / 2 powi expo x\<bar> * 2 powi expo x"
    by (simp add: abs_mult)
  also have "\<dots> \<le> 1 / 2 * 2 powi expo x"
    by (intro mult_right_mono py_round_abs) simp
  finally show ?thesis by simp
qed

lemma rnd_rel_err:
  assumes "2 powi (- 1022) \<le> \<bar>x\<bar>"
  shows "\<bar>rnd x - x\<bar> \<le> \<bar>x\<bar> / 2 ^ 53"
proof -
  have "(2::real) powi expo x / 2 = 2 powi (expo x + 52) / 2 ^ 53"
    by (simp add: power_int_add)
  also have "\<dots> \<le> \<bar>x\<bar> / 2 ^ 53"
    using expo_lower_normal [OF assms] by (simp add: divide_right_mono)
  finally show ?thesis using rnd_err [of x] by linarith
qed

lemma rnd_rel_err_pos:
  assumes "2 powi (- 1022) \<le> x"
  shows "\<bar>rnd x - x\<bar> \<le> x / 2 ^ 53"
proof -
  have "0 < x" using assms two_powi_pos [of "- 1022"] by linarith
  then show ?thesis using rnd_rel_err [of x] assms by simp
qed

lemma one_normal: "(2::real) powi (- 1022) \<le> 1"
  using two_powi_mono [of "- 1022" 0] by simp

lemma rnd_unit_err:
  assumes "0 \<le> x" and "x \<le> 1"
  shows "\<bar>rnd x - x\<bar> \<le> 1 / 2 ^ 53"
proof (cases "x = 0 \<or> x = 1")
  case True
  then show ?thesis by auto
next
  case False
  then have x: "x \<noteq> 0" "\<bar>x\<bar> < 2 powi (- 53 + 53)" using assms by simp_all
  have "expo x \<le> - 53" using x by (intro expo_le) simp_all
  then have "(2::real) powi expo x \<le> 2 powi (- 53)" by (rule two_powi_mono)
  with rnd_err [of x] show ?thesis by (simp add: power_int_minus field_simps)
qed

lemma abs_div_le:
  fixes x y c :: real
  assumes "0 < y" and "\<bar>x\<bar> \<le> c * y"
  shows "\<bar>x / y\<bar> \<le> c"
proof -
  have "\<bar>x / y\<bar> = \<bar>x\<bar> / y" using assms(1) by simp
  also have "\<dots> \<le> c" using assms by (simp add: pos_divide_le_eq)
  finally show ?thesis .
qed

lemma pow2_53: "(2::real) ^ 53 = 9007199254740992"
  by simp

subsection \<open>Rounding is monotone and idempotent\<close>

lemma rnd_upper_pos: "0 \<le> x \<Longrightarrow> rnd x \<le> 2 powi (expo x + 53)"
proof -
  assume "0 \<le> x"
  have "x / 2 powi expo x < 2 powi (expo x + 53) / 2 powi expo x"
    using expo_upper [of x] \<open>0 \<le> x\<close> by (simp add: divide_strict_right_mono)
  also have "\<dots> = of_int (2 ^ 53)" by (simp add: power_int_add)
  finally have "py_round (x / 2 powi expo x) \<le> 2 ^ 53" by (intro py_round_le) simp
  then have "(of_int (py_round (x / 2 powi expo x)) :: real) \<le> of_int (2 ^ 53)"
    by (simp only: of_int_le_iff)
  then have "rnd x \<le> of_int (2 ^ 53) * 2 powi expo x"
    unfolding rnd_def by (intro mult_right_mono) simp_all
  then show ?thesis by (simp add: power_int_add)
qed

lemma rnd_lower_pos:
  assumes "0 < x" and "- 1074 < expo x"
  shows "2 powi (expo x + 52) \<le> rnd x"
proof -
  have "2 powi (expo x + 52) / 2 powi expo x \<le> x / 2 powi expo x"
    using expo_lower [of x] assms by (simp add: divide_right_mono)
  moreover have "2 powi (expo x + 52) / 2 powi expo x = (of_int (2 ^ 52) :: real)"
    by (simp add: power_int_add)
  ultimately have "2 ^ 52 \<le> py_round (x / 2 powi expo x)" by (intro py_round_ge) simp
  then have "(of_int (2 ^ 52) :: real) \<le> of_int (py_round (x / 2 powi expo x))"
    by (simp only: of_int_le_iff)
  then have "of_int (2 ^ 52) * 2 powi expo x \<le> rnd x"
    unfolding rnd_def by (intro mult_right_mono) simp_all
  then show ?thesis by (simp add: power_int_add)
qed

lemma rnd_mono_pos:
  assumes "0 \<le> x" and "x \<le> y"
  shows "rnd x \<le> rnd y"
proof (cases "x = 0")
  case True
  then show ?thesis using rnd_nonneg [of y] assms by simp
next
  case False
  with assms have pos: "0 < x" "0 < y" by auto
  have le: "expo x \<le> expo y" using False assms by (intro expo_mono) auto
  show ?thesis
  proof (cases "expo x = expo y")
    case True
    have "x / 2 powi expo y \<le> y / 2 powi expo y"
      using assms(2) by (simp add: divide_right_mono)
    then have "py_round (x / 2 powi expo y) \<le> py_round (y / 2 powi expo y)"
      by (rule py_round_mono)
    then have "(of_int (py_round (x / 2 powi expo y)) :: real) \<le> of_int (py_round (y / 2 powi expo y))"
      by (simp only: of_int_le_iff)
    then show ?thesis unfolding rnd_def True by (intro mult_right_mono) simp_all
  next
    case False
    with le have lt: "expo x + 53 \<le> expo y + 52" by simp
    have "- 1074 < expo y" using lt expo_ge [of x] by linarith
    then have "2 powi (expo y + 52) \<le> rnd y" using pos(2) by (intro rnd_lower_pos)
    moreover have "rnd x \<le> 2 powi (expo x + 53)" using assms(1) by (rule rnd_upper_pos)
    moreover have "(2::real) powi (expo x + 53) \<le> 2 powi (expo y + 52)"
      using lt by (rule two_powi_mono)
    ultimately show ?thesis by linarith
  qed
qed

lemma rnd_mono: "x \<le> y \<Longrightarrow> rnd x \<le> rnd y"
proof -
  assume xy: "x \<le> y"
  consider "0 \<le> x" | "x < 0" "0 \<le> y" | "x < 0" "y < 0" by linarith
  then show ?thesis
  proof cases
    case 1
    then show ?thesis using xy by (rule rnd_mono_pos)
  next
    case 2
    have "0 \<le> rnd (- x)" using 2(1) by (intro rnd_nonneg) simp
    then have "rnd x \<le> 0" by (simp add: rnd_minus)
    moreover have "0 \<le> rnd y" using 2(2) by (rule rnd_nonneg)
    ultimately show ?thesis by linarith
  next
    case 3
    have "rnd (- y) \<le> rnd (- x)" using 3 xy by (intro rnd_mono_pos) simp_all
    then show ?thesis by (simp add: rnd_minus)
  qed
qed

lemma rnd_idem_pos:
  assumes "0 \<le> x"
  shows "rnd (rnd x) = rnd x"
proof -
  define j where "j = py_round (x / 2 powi expo x)"
  have r: "rnd x = of_int j * 2 powi expo x" by (simp add: rnd_def j_def)
  have "of_int 0 \<le> x / 2 powi expo x" using assms by simp
  then have j0: "0 \<le> j" unfolding j_def by (rule py_round_ge)
  have "x / 2 powi expo x < 2 powi (expo x + 53) / 2 powi expo x"
    using expo_upper [of x] assms by (simp add: divide_strict_right_mono)
  also have "\<dots> = of_int (2 ^ 53)" by (simp add: power_int_add)
  finally have j1: "j \<le> 2 ^ 53" unfolding j_def by (intro py_round_le) simp
  show ?thesis
  proof (cases "j = 2 ^ 53")
    case True
    then have "rnd x = 2 powi (expo x + 53)" by (simp add: r power_int_add)
    moreover have "- 1074 \<le> expo x + 53" using expo_ge [of x] by linarith
    ultimately show ?thesis by (simp add: rnd_two_powi)
  next
    case False
    with j0 j1 have "\<bar>j\<bar> < 2 ^ 53" by linarith
    from rnd_fix [OF expo_ge this, of x] show ?thesis by (simp add: r)
  qed
qed

lemma rnd_idem [simp]: "rnd (rnd x) = rnd x"
proof (cases "0 \<le> x")
  case True
  then show ?thesis by (rule rnd_idem_pos)
next
  case False
  then have "rnd (rnd (- x)) = rnd (- x)" by (intro rnd_idem_pos) simp
  then show ?thesis by (simp add: rnd_minus)
qed

lemma rnd_le: "x \<le> y \<Longrightarrow> rnd y = y \<Longrightarrow> rnd x \<le> y"
  using rnd_mono [of x y] by simp

lemma rnd_ge: "y \<le> x \<Longrightarrow> rnd y = y \<Longrightarrow> y \<le> rnd x"
  using rnd_mono [of y x] by simp

subsection \<open>Neighbouring doubles\<close>

lemma f64_below:
  assumes "rnd x = x" and "0 \<le> x" and "x < 2 powi n" and "- 1021 \<le> n"
  shows "x \<le> 2 powi n - 2 powi (n - 53)"
proof (cases "x < 2 powi (n - 1)")
  case True
  have "(2::real) powi n = 2 * 2 powi (n - 1)" by (simp add: power_int_diff)
  moreover have "(2::real) powi (n - 53) \<le> 2 powi (n - 1)" by (intro two_powi_mono) simp
  ultimately show ?thesis using True by linarith
next
  case False
  then have lo: "2 powi (n - 53 + 52) \<le> \<bar>x\<bar>" using assms(2) by simp
  have hi: "\<bar>x\<bar> < 2 powi (n - 53 + 53)" using assms(2,3) by simp
  have e: "expo x = n - 53" using assms(4) lo hi by (intro expoI) simp_all
  define j where "j = py_round (x / 2 powi (n - 53))"
  have x: "x = of_int j * 2 powi (n - 53)" using assms(1) by (simp add: rnd_def e j_def)
  have "of_int j * 2 powi (n - 53) < 2 ^ 53 * (2::real) powi (n - 53)"
    using assms(3) x by (simp add: power_int_diff)
  then have "(of_int j :: real) < of_int (2 ^ 53)" by simp
  then have "j < 2 ^ 53" by (simp only: of_int_less_iff)
  then have "j \<le> 2 ^ 53 - 1" by simp
  then have "(of_int j :: real) \<le> of_int (2 ^ 53 - 1)" by (simp only: of_int_le_iff)
  then have "of_int j * 2 powi (n - 53) \<le> of_int (2 ^ 53 - 1) * (2::real) powi (n - 53)"
    by (intro mult_right_mono) simp_all
  also have "\<dots> = 2 powi n - 2 powi (n - 53)"
    by (simp add: power_int_diff algebra_simps)
  finally show ?thesis using x by simp
qed

lemma f64_max_less: "f64_max < 2 ^ 1024"
proof -
  have "f64_max = 2 powi 1024 - 2 powi 971"
    unfolding f64_max_def by (simp add: algebra_simps flip: power_add)
  then show ?thesis by simp
qed

lemma f64_max_eq: "f64_max = 2 powi 1024 - 2 powi (1024 - 53)"
  unfolding f64_max_def by (simp add: algebra_simps flip: power_add)

lemma f64_le_max:
  assumes "rnd x = x" and "\<bar>x\<bar> < 2 ^ 1024"
  shows "\<bar>x\<bar> \<le> f64_max"
proof -
  have r: "rnd \<bar>x\<bar> = \<bar>x\<bar>" using assms(1) rnd_minus [of x] by (cases "0 \<le> x") simp_all
  have "\<bar>x\<bar> < 2 powi 1024" using assms(2) by simp
  from f64_below [OF r _ this] show ?thesis by (simp only: f64_max_eq)
qed

lemma rnd_max_plus_100: "rnd (f64_max + 100) = f64_max"
proof -
  have "rnd (of_int (2 ^ 53 - 1) * 2 powi 971 + 100) = of_int (2 ^ 53 - 1) * 2 powi 971"
    by (rule rnd_absorb) simp_all
  then show ?thesis by (simp add: f64_max_def)
qed

lemma rnd_below_one: "rnd below_one = below_one"
proof -
  have f: "rnd (of_int (2 ^ 53 - 1) * 2 powi (- 53)) = of_int (2 ^ 53 - 1) * 2 powi (- 53)"
    by (rule rnd_fix) simp_all
  have e: "of_int (2 ^ 53 - 1) * 2 powi (- 53) = below_one"
    by (simp add: below_one_def power_int_minus field_simps)
  show ?thesis using f unfolding e .
qed

lemma below_one_less: "below_one < 1"
  by (simp add: below_one_def)

lemma rnd_pow50: "rnd (2 ^ 50) = 2 ^ 50"
  using rnd_of_int [of "2 ^ 50"] by simp

lemma rnd_inv_pow50: "rnd (1 / 2 ^ 50) = 1 / 2 ^ 50"
  using rnd_fix [of "- 50" 1] by (simp add: power_int_minus field_simps)

lemma f64_below_one:
  assumes "rnd p = p" and "0 \<le> p" and "p < 1"
  shows "p \<le> below_one"
  using f64_below [OF assms(1,2), of 0] assms(3) by (simp add: below_one_def)

lemma rnd_recip_ge:
  assumes "0 < p" and "p \<le> below_one"
  shows "above_one \<le> rnd (1 / p)"
proof (cases "2 \<le> 1 / p")
  case True
  then have "2 \<le> rnd (1 / p)" using rnd_of_int [of 2] by (intro rnd_ge) simp_all
  then show ?thesis by (simp add: above_one_def power_int_minus)
next
  case False
  define x where "x = 1 / p"
  have b1: "0 < below_one" by (simp add: below_one_def power_int_minus)
  have "1 / below_one \<le> x" unfolding x_def using assms by (intro divide_left_mono) simp_all
  moreover have "1 + 1 / 2 ^ 53 < 1 / below_one"
    by (simp add: below_one_def power_int_minus field_simps)
  ultimately have lo: "1 + 1 / 2 ^ 53 < x" by linarith
  have hi: "x < 2" using False by (simp add: x_def)
  have e: "expo x = - 52" using lo hi by (intro expoI) simp_all
  have "of_int (2 ^ 52) + 1 / 2 < x / 2 powi (- 52)"
    using lo by (simp add: power_int_minus field_simps)
  then have "2 ^ 52 + 1 \<le> py_round (x / 2 powi (- 52))" by (rule py_round_gt_half)
  then have "(of_int (2 ^ 52 + 1) :: real) \<le> of_int (py_round (x / 2 powi (- 52)))"
    by (simp only: of_int_le_iff)
  then have "of_int (2 ^ 52 + 1) * 2 powi (- 52) \<le> rnd x"
    unfolding rnd_def e by (intro mult_right_mono) simp_all
  moreover have "of_int (2 ^ 52 + 1) * 2 powi (- 52) = above_one"
    by (simp add: above_one_def power_int_minus field_simps)
  ultimately show ?thesis by (simp add: x_def)
qed

lemma rnd_sub_one_exact:
  assumes "1 < x" and "rnd x < 2"
  shows "rnd (rnd x - 1) = rnd x - 1"
proof -
  have x2: "x < 2"
  proof (rule ccontr)
    assume "\<not> x < 2"
    then have "2 \<le> rnd x" using rnd_of_int [of 2] by (intro rnd_ge) simp_all
    with assms(2) show False by simp
  qed
  have e: "expo x = - 52" using assms(1) x2 by (intro expoI) simp_all
  define j where "j = py_round (x / 2 powi (- 52))"
  have r: "rnd x = of_int j * 2 powi (- 52)" by (simp add: rnd_def e j_def)
  have "of_int (2 ^ 52) \<le> x / 2 powi (- 52)"
    using assms(1) by (simp add: power_int_minus field_simps)
  then have j0: "2 ^ 52 \<le> j" unfolding j_def by (rule py_round_ge)
  have "of_int j * 2 powi (- 52) < 2 ^ 53 * (2::real) powi (- 52)"
    using assms(2) r by (simp add: power_int_minus field_simps)
  then have "(of_int j :: real) < of_int (2 ^ 53)" by simp
  then have j1: "j < 2 ^ 53" by (simp only: of_int_less_iff)
  have s: "rnd x - 1 = of_int (j - 2 ^ 52) * 2 powi (- 52)"
    by (simp add: r power_int_minus field_simps)
  have "rnd (of_int (j - 2 ^ 52) * 2 powi (- 52)) = of_int (j - 2 ^ 52) * 2 powi (- 52)"
    using j0 j1 by (intro rnd_fix) simp_all
  then show ?thesis unfolding s .
qed

lemma rnd_round_int:
  assumes "rnd v = v"
  shows "rnd (of_int (py_round v)) = of_int (py_round v)"
proof (cases "\<bar>v\<bar> < 2 ^ 53")
  case True
  then have "v \<le> of_int (2 ^ 53)" "of_int (- (2 ^ 53)) \<le> v" by simp_all
  then have "py_round v \<le> 2 ^ 53" "- (2 ^ 53) \<le> py_round v"
    using py_round_le [of v "2 ^ 53"] py_round_ge [of "- (2 ^ 53)" v] by simp_all
  then have "\<bar>py_round v\<bar> \<le> 2 ^ 53" by linarith
  then show ?thesis by (rule rnd_of_int)
next
  case False
  then have big: "2 powi 53 \<le> \<bar>v\<bar>" by simp
  have v0: "v \<noteq> 0" using big two_powi_pos [of 53] by auto
  have "(2::real) powi 53 < 2 powi (expo v + 53)" using big expo_upper [of v] by linarith
  then have "53 < expo v + 53" by (rule two_powi_less_cancel)
  then obtain n where n: "expo v = int n" using zero_le_imp_eq_int [of "expo v"] by auto
  have "v = of_int (py_round (v / 2 powi expo v)) * 2 powi expo v"
    using assms by (simp add: rnd_def)
  also have "\<dots> = of_int (py_round (v / 2 powi expo v) * 2 ^ n)" by (simp add: n)
  finally obtain i where i: "v = of_int i" ..
  then show ?thesis using assms by simp
qed

subsection \<open>Operations without overflow\<close>

lemma fl_Fin: "\<bar>rnd x\<bar> < 2 ^ 1024 \<Longrightarrow> fl x = Fin (rnd x)"
  by (auto simp: fl_def)

lemma sum_100_bounds:
  assumes "0 \<le> a" and "rnd a = a" and "a < 2 ^ 1024"
  shows "100 \<le> rnd (a + 100)" and "a \<le> rnd (a + 100)" and "rnd (a + 100) \<le> f64_max"
proof -
  show "100 \<le> rnd (a + 100)" using assms(1) by (intro rnd_ge) simp_all
  show "a \<le> rnd (a + 100)" using assms(2) by (intro rnd_ge) simp_all
  have "a \<le> f64_max" using f64_le_max [of a] assms by simp
  then have "rnd (a + 100) \<le> rnd (f64_max + 100)" by (intro rnd_mono) simp
  then show "rnd (a + 100) \<le> f64_max" by (simp add: rnd_max_plus_100)
qed

lemma fl_sum_100:
  assumes "0 \<le> a" and "rnd a = a" and "a < 2 ^ 1024"
  shows "fl (a + 100) = Fin (rnd (a + 100))"
proof -
  note b = sum_100_bounds [OF assms]
  have "\<bar>rnd (a + 100)\<bar> < 2 ^ 1024" using b(1,3) f64_max_less by linarith
  then show ?thesis by (rule fl_Fin)
qed

lemma fl_unit:
  assumes "0 \<le> x" and "x \<le> 1"
  shows "fl x = Fin (rnd x)" and "0 \<le> rnd x" and "rnd x \<le> 1"
proof -
  show 0: "0 \<le> rnd x" using assms(1) by (rule rnd_nonneg)
  show 1: "rnd x \<le> 1" using assms(2) by (intro rnd_le) simp_all
  have "\<bar>rnd x\<bar> < 2 ^ 1024" using 0 1 by simp
  then show "fl x = Fin (rnd x)" by (rule fl_Fin)
qed

section \<open>Odds Converter: the formula\<close>

lemma american_to_prob_number:
  "float_py fs c = Inr (Val p) \<Longrightarrow>
     american_to_prob fs c = Val (if p < 0 then (- p) / (- p + 100) else 100 / (p + 100))"
  by (simp add: american_to_prob_def american_to_prob_try_def)

lemma american_to_prob_nan:
  "float_py fs c = Inr NaN \<Longrightarrow> american_to_prob fs c = NaN"
  by (simp add: american_to_prob_def american_to_prob_try_def)

lemma american_to_prob_raise:
  "float_py fs c = Inl e \<Longrightarrow> american_to_prob fs c = NaN"
  by (simp add: american_to_prob_def american_to_prob_try_def)

section \<open>Odds Converter: the range of the result\<close>

text \<open>
  The result of the binary64 converter on a finite price: the quotient of the formula
  with the sum and the quotient rounded. Neither operation overflows.
\<close>

lemma american_to_prob64_neg:
  assumes "float64_py float_str c = Inr (Fin (- a))" and "rnd a = a" and "a < 2 ^ 1024"
    and "0 < a"
  shows "american_to_prob64 float_str c = Fin (rnd (a / rnd (a + 100)))"
    and "0 \<le> a / rnd (a + 100)" and "a / rnd (a + 100) \<le> 1"
proof -
  have a: "0 \<le> a" "rnd a = a" "a < 2 ^ 1024" using assms(2,3,4) by simp_all
  note b = sum_100_bounds [OF a]
  show 0: "0 \<le> a / rnd (a + 100)" using a(1) b(1) by simp
  show 1: "a / rnd (a + 100) \<le> 1" using b(1,2) by simp
  have "american_to_prob_try64 float_str c = Inr (fl (a / rnd (a + 100)))"
    using assms(1,4) b(1) by (simp add: american_to_prob_try64_def fl_sum_100 [OF a])
  then show "american_to_prob64 float_str c = Fin (rnd (a / rnd (a + 100)))"
    by (simp add: american_to_prob64_def fl_unit(1) [OF 0 1])
qed

lemma american_to_prob64_pos:
  assumes "float64_py float_str c = Inr (Fin p)" and "rnd p = p" and "\<bar>p\<bar> < 2 ^ 1024"
    and "0 \<le> p"
  shows "american_to_prob64 float_str c = Fin (rnd (100 / rnd (p + 100)))"
    and "0 \<le> 100 / rnd (p + 100)" and "100 / rnd (p + 100) \<le> 1"
proof -
  have a: "0 \<le> p" "rnd p = p" "p < 2 ^ 1024" using assms(2,3,4) by simp_all
  note b = sum_100_bounds [OF a]
  show 0: "0 \<le> 100 / rnd (p + 100)" using b(1) by simp
  show 1: "100 / rnd (p + 100) \<le> 1" using b(1) by simp
  have "american_to_prob_try64 float_str c = Inr (fl (100 / rnd (p + 100)))"
    using assms(1,4) b(1) by (simp add: american_to_prob_try64_def fl_sum_100 [OF a])
  then show "american_to_prob64 float_str c = Fin (rnd (100 / rnd (p + 100)))"
    by (simp add: american_to_prob64_def fl_unit(1) [OF 0 1])
qed

text \<open>
  The result is strictly inside the unit interval for a price of magnitude between 1 and
  \<open>10 ^ 15\<close>. Outside this range it need not be: a large price is absorbed by the sum
  or the quotient rounds to 1 or to 0.
\<close>

lemma strict_pos:
  assumes "1 \<le> p" and "p \<le> 10 ^ 15"
  shows "0 < rnd (100 / rnd (p + 100))" and "rnd (100 / rnd (p + 100)) < 1"
proof -
  have lo: "101 \<le> rnd (p + 100)"
    using assms(1) rnd_of_int [of 101] by (intro rnd_ge) simp_all
  have hi: "rnd (p + 100) \<le> 2 ^ 50"
    using assms(2) by (intro rnd_le rnd_pow50) simp
  have "1 / 2 ^ 50 \<le> 100 / rnd (p + 100)"
    using lo hi by (intro frac_le) simp_all
  then have "1 / 2 ^ 50 \<le> rnd (100 / rnd (p + 100))"
    by (intro rnd_ge rnd_inv_pow50)
  then show "0 < rnd (100 / rnd (p + 100))" by (rule less_le_trans [rotated]) simp
  have "100 / rnd (p + 100) \<le> 100 / 101"
    using lo by (intro divide_left_mono) simp_all
  also have "\<dots> \<le> below_one" by (simp add: below_one_def power_int_minus)
  finally have "rnd (100 / rnd (p + 100)) \<le> below_one" by (intro rnd_le rnd_below_one)
  then show "rnd (100 / rnd (p + 100)) < 1" using below_one_less by linarith
qed

lemma strict_neg:
  assumes "1 \<le> a" and "a \<le> 10 ^ 15"
  shows "0 < rnd (a / rnd (a + 100))" and "rnd (a / rnd (a + 100)) < 1"
proof -
  have fl: "of_int \<lfloor>a\<rfloor> \<le> a" "a < of_int \<lfloor>a\<rfloor> + 1" by linarith+
  have "0 \<le> \<lfloor>a\<rfloor>" using assms(1) by simp
  moreover have "\<lfloor>a\<rfloor> \<le> 10 ^ 15" using assms(2) by (simp add: floor_le_iff)
  ultimately have "\<bar>\<lfloor>a\<rfloor> + 100\<bar> \<le> 2 ^ 53" by simp
  then have "rnd (of_int (\<lfloor>a\<rfloor> + 100)) = of_int (\<lfloor>a\<rfloor> + 100)" by (rule rnd_of_int)
  moreover have "of_int (\<lfloor>a\<rfloor> + 100) \<le> a + 100" using fl(1) by simp
  ultimately have "of_int (\<lfloor>a\<rfloor> + 100) \<le> rnd (a + 100)" by (intro rnd_ge)
  then have "of_int \<lfloor>a\<rfloor> + 100 \<le> rnd (a + 100)" by simp
  with fl(2) have lo: "a + 99 \<le> rnd (a + 100)" by linarith
  have hi: "rnd (a + 100) \<le> 2 ^ 50"
    using assms(2) by (intro rnd_le rnd_pow50) simp
  have spos: "0 < rnd (a + 100)" using lo assms(1) by linarith
  have "1 / 2 ^ 50 \<le> a / rnd (a + 100)"
    using assms(1) spos hi by (intro frac_le) simp_all
  then have "1 / 2 ^ 50 \<le> rnd (a / rnd (a + 100))"
    by (intro rnd_ge rnd_inv_pow50)
  then show "0 < rnd (a / rnd (a + 100))" by (rule less_le_trans [rotated]) simp
  have "a \<le> below_one * (a + 99)"
    using assms by (simp add: below_one_def power_int_minus field_simps)
  also have "\<dots> \<le> below_one * rnd (a + 100)"
    using lo by (intro mult_left_mono) (simp_all add: below_one_def power_int_minus)
  finally have "a / rnd (a + 100) \<le> below_one"
    using spos by (simp add: pos_divide_le_eq)
  then have "rnd (a / rnd (a + 100)) \<le> below_one" by (intro rnd_le rnd_below_one)
  then show "rnd (a / rnd (a + 100)) < 1" using below_one_less by linarith
qed

lemma american_to_prob64_absorbed:
  "american_to_prob64 float_str (Number (- (2 ^ 60))) = Fin 1"
proof -
  have r: "rnd (2 ^ 60) = 2 ^ 60" using rnd_two_powi [of 60] by simp
  have "rnd (of_int (2 ^ 52) * 2 powi 8 + 100) = of_int (2 ^ 52) * 2 powi 8"
    by (rule rnd_absorb) simp_all
  moreover have "of_int (2 ^ 52) * 2 powi 8 = (2::real) ^ 60" by simp
  ultimately have s: "rnd (2 ^ 60 + 100) = 2 ^ 60" by (simp only:)
  have c: "float64_py float_str (Number (- (2 ^ 60))) = Inr (Fin (- (2 ^ 60)))"
    by (simp add: float64_py_def)
  have lt: "(2::real) ^ 60 < 2 ^ 1024" and a0: "(0::real) < 2 ^ 60" by simp_all
  have d: "(2::real) ^ 60 / 2 ^ 60 = 1" by simp
  show ?thesis unfolding american_to_prob64_neg(1) [OF c r lt a0] s d by simp
qed

text \<open>An infinite price: +infinity gives 0, -infinity gives NaN.\<close>

lemma american_to_prob64_inf:
  "float64_py float_str c = Inr PInf \<Longrightarrow> american_to_prob64 float_str c = Fin 0"
  "float64_py float_str c = Inr NInf \<Longrightarrow> american_to_prob64 float_str c = NaN64"
  "float64_py float_str c = Inr NaN64 \<Longrightarrow> american_to_prob64 float_str c = NaN64"
  "float64_py float_str c = Inl e \<Longrightarrow> american_to_prob64 float_str c = NaN64"
  by (simp_all add: american_to_prob64_def american_to_prob_try64_def)

lemma american_to_prob64_finite:
  assumes "float64_py float_str c = Inr (Fin p)" and "rnd p = p" and "\<bar>p\<bar> < 2 ^ 1024"
  shows "(\<exists>q. american_to_prob64 float_str c = Fin q \<and> 0 \<le> q \<and> q \<le> 1
            \<and> (1 \<le> \<bar>p\<bar> \<and> \<bar>p\<bar> \<le> 10 ^ 15 \<longrightarrow> 0 < q \<and> q < 1)
            \<and> (p = 0 \<longrightarrow> q = 1))
       \<and> american_to_prob64 float_str (Number (- 100)) = Fin (1 / 2)
       \<and> american_to_prob64 float_str (Number 100) = Fin (1 / 2)"
proof (intro conjI)
  show "\<exists>q. american_to_prob64 float_str c = Fin q \<and> 0 \<le> q \<and> q \<le> 1
            \<and> (1 \<le> \<bar>p\<bar> \<and> \<bar>p\<bar> \<le> 10 ^ 15 \<longrightarrow> 0 < q \<and> q < 1)
            \<and> (p = 0 \<longrightarrow> q = 1)"
  proof (cases "p < 0")
    case True
    define a where "a = - p"
    have a: "float64_py float_str c = Inr (Fin (- a))" "rnd a = a" "a < 2 ^ 1024" "0 < a"
      using assms True by (simp_all add: a_def rnd_minus)
    note t = american_to_prob64_neg [OF a]
    have "0 \<le> rnd (a / rnd (a + 100))" "rnd (a / rnd (a + 100)) \<le> 1"
      using fl_unit(2,3) [OF t(2,3)] by simp_all
    moreover have "0 < rnd (a / rnd (a + 100)) \<and> rnd (a / rnd (a + 100)) < 1"
      if "1 \<le> \<bar>p\<bar> \<and> \<bar>p\<bar> \<le> 10 ^ 15"
      using that True strict_neg [of a] by (simp add: a_def)
    ultimately show ?thesis using t(1) True by auto
  next
    case False
    then have p: "0 \<le> p" by simp
    note t = american_to_prob64_pos [OF assms p]
    have "0 \<le> rnd (100 / rnd (p + 100))" "rnd (100 / rnd (p + 100)) \<le> 1"
      using fl_unit(2,3) [OF t(2,3)] by simp_all
    moreover have "0 < rnd (100 / rnd (p + 100)) \<and> rnd (100 / rnd (p + 100)) < 1"
      if "1 \<le> \<bar>p\<bar> \<and> \<bar>p\<bar> \<le> 10 ^ 15"
      using that p strict_pos [of p] by simp
    moreover have "rnd (100 / rnd (p + 100)) = 1" if "p = 0"
      using that by simp
    ultimately show ?thesis using t(1) by auto
  qed
  have n: "float64_py float_str (Number (- 100)) = Inr (Fin (- 100))"
    by (simp add: float64_py_def)
  from american_to_prob64_neg(1) [OF n]
  show "american_to_prob64 float_str (Number (- 100)) = Fin (1 / 2)" by simp
  have m: "float64_py float_str (Number 100) = Inr (Fin 100)"
    by (simp add: float64_py_def)
  from american_to_prob64_pos(1) [OF m]
  show "american_to_prob64 float_str (Number 100) = Fin (1 / 2)" by simp
qed

text \<open>
  The binary64 converter agrees with the exact formula, which the columns of the table
  are modelled with, up to \<open>2 ^ - 52\<close>.
\<close>

lemma conv_close:
  fixes n x s :: real
  assumes "0 \<le> n" and "n \<le> s" and "0 < x" and "0 < s"
    and "\<bar>s - x\<bar> \<le> x / 2 ^ 53"
  shows "\<bar>rnd (n / s) - n / x\<bar> \<le> 1 / 2 ^ 52"
proof -
  have "n * x \<le> s * x" using assms(2,3) by (intro mult_right_mono) simp_all
  moreover have "\<bar>n * (x - s)\<bar> = n * \<bar>s - x\<bar>"
    using assms(1) by (simp add: abs_mult abs_minus_commute)
  moreover have "n * \<bar>s - x\<bar> \<le> n * (x / 2 ^ 53)"
    using assms(1,5) by (intro mult_left_mono) simp_all
  ultimately have "\<bar>n * (x - s)\<bar> \<le> 1 / 2 ^ 53 * (s * x)" by (simp add: algebra_simps)
  moreover have "0 < s * x" using assms(3,4) by simp
  ultimately have "\<bar>n * (x - s) / (s * x)\<bar> \<le> 1 / 2 ^ 53" by (intro abs_div_le)
  moreover have "n / s - n / x = n * (x - s) / (s * x)"
    using assms(3,4) by (simp add: field_simps)
  ultimately have e1: "\<bar>n / s - n / x\<bar> \<le> 1 / 2 ^ 53" by simp
  have "0 \<le> n / s" "n / s \<le> 1" using assms(1,2,4) by simp_all
  then have e2: "\<bar>rnd (n / s) - n / s\<bar> \<le> 1 / 2 ^ 53" by (rule rnd_unit_err)
  have "\<bar>rnd (n / s) - n / x\<bar> \<le> \<bar>rnd (n / s) - n / s\<bar> + \<bar>n / s - n / x\<bar>"
    using abs_triangle_ineq [of "rnd (n / s) - n / s" "n / s - n / x"] by simp
  with e1 e2 have "\<bar>rnd (n / s) - n / x\<bar> \<le> 1 / 2 ^ 53 + 1 / 2 ^ 53" by linarith
  then show ?thesis by simp
qed

lemma conv_close_sum:
  assumes "0 \<le> a" and "rnd a = a" and "a < 2 ^ 1024"
  shows "\<bar>rnd (a / rnd (a + 100)) - a / (a + 100)\<bar> \<le> 1 / 2 ^ 52"
    and "\<bar>rnd (100 / rnd (a + 100)) - 100 / (a + 100)\<bar> \<le> 1 / 2 ^ 52"
proof -
  note b = sum_100_bounds [OF assms]
  have s0: "0 < rnd (a + 100)" using b(1) by simp
  have x0: "0 < a + 100" using assms(1) by simp
  have "2 powi (- 1022) \<le> a + 100" using one_normal assms(1) by linarith
  then have e: "\<bar>rnd (a + 100) - (a + 100)\<bar> \<le> (a + 100) / 2 ^ 53" by (rule rnd_rel_err_pos)
  show "\<bar>rnd (a / rnd (a + 100)) - a / (a + 100)\<bar> \<le> 1 / 2 ^ 52"
    using assms(1) b(2) x0 s0 e by (rule conv_close)
  show "\<bar>rnd (100 / rnd (a + 100)) - 100 / (a + 100)\<bar> \<le> 1 / 2 ^ 52"
    using b(1) x0 s0 e by (intro conv_close) simp_all
qed

lemma american_to_prob64_close:
  assumes "float64_py fs64 c = Inr (Fin p)" and "float_py fs c = Inr (Val p)"
    and "rnd p = p" and "\<bar>p\<bar> < 2 ^ 1024"
  shows "\<exists>q r. american_to_prob64 fs64 c = Fin q \<and> american_to_prob fs c = Val r
           \<and> \<bar>q - r\<bar> \<le> 1 / 2 ^ 52"
proof (cases "p < 0")
  case True
  define a where "a = - p"
  have a: "float64_py fs64 c = Inr (Fin (- a))" "rnd a = a" "a < 2 ^ 1024" "0 < a"
    using assms True by (simp_all add: a_def rnd_minus)
  have a0: "0 \<le> a" using a(4) by simp
  have "american_to_prob fs c = Val (a / (a + 100))"
    using american_to_prob_number [OF assms(2)] True by (simp add: a_def)
  with american_to_prob64_neg(1) [OF a] conv_close_sum(1) [OF a0 a(2,3)]
  show ?thesis by simp
next
  case False
  then have p: "0 \<le> p" by simp
  have lt: "p < 2 ^ 1024" using assms(4) by simp
  have "american_to_prob fs c = Val (100 / (p + 100))"
    using american_to_prob_number [OF assms(2)] False by simp
  with american_to_prob64_pos(1) [OF assms(1,3,4) p] conv_close_sum(2) [OF p assms(3) lt]
  show ?thesis by simp
qed

text \<open>
  Claim C3, amended. For every price that parses to a finite double \<open>p\<close> the Odds
  Converter gives a double between 0 and 1, both included; the result is strictly between
  0 and 1 when the magnitude of the price is between 1 and \<open>10 ^ 15\<close>; the price 0 gives
  exactly 1; a price that parses to +infinity gives 0 and one that parses to -infinity
  gives NaN; the prices -100 and +100 both give 1/2.
\<close>

theorem american_to_prob64_range:
  "(float64_py float_str c = Inr (Fin p) \<and> rnd p = p \<and> \<bar>p\<bar> < 2 ^ 1024 \<longrightarrow>
      (\<exists>q. american_to_prob64 float_str c = Fin q \<and> 0 \<le> q \<and> q \<le> 1
         \<and> (1 \<le> \<bar>p\<bar> \<and> \<bar>p\<bar> \<le> 10 ^ 15 \<longrightarrow> 0 < q \<and> q < 1)
         \<and> (p = 0 \<longrightarrow> q = 1)))
   \<and> (float64_py float_str c = Inr PInf \<longrightarrow> american_to_prob64 float_str c = Fin 0)
   \<and> (float64_py float_str c = Inr NInf \<longrightarrow> american_to_prob64 float_str c = NaN64)
   \<and> american_to_prob64 float_str (Number (- 100)) = Fin (1 / 2)
   \<and> american_to_prob64 float_str (Number 100) = Fin (1 / 2)"
proof (intro conjI impI)
  assume "float64_py float_str c = Inr (Fin p) \<and> rnd p = p \<and> \<bar>p\<bar> < 2 ^ 1024"
  then have a: "float64_py float_str c = Inr (Fin p)" "rnd p = p" "\<bar>p\<bar> < 2 ^ 1024"
    by simp_all
  from american_to_prob64_finite [OF a]
  show "\<exists>q. american_to_prob64 float_str c = Fin q \<and> 0 \<le> q \<and> q \<le> 1
         \<and> (1 \<le> \<bar>p\<bar> \<and> \<bar>p\<bar> \<le> 10 ^ 15 \<longrightarrow> 0 < q \<and> q < 1)
         \<and> (p = 0 \<longrightarrow> q = 1)"
    by (rule conjunct1)
next
  assume "float64_py float_str c = Inr PInf"
  then show "american_to_prob64 float_str c = Fin 0" by (rule american_to_prob64_inf(1))
next
  assume "float64_py float_str c = Inr NInf"
  then show "american_to_prob64 float_str c = NaN64" by (rule american_to_prob64_inf(2))
next
  have n: "float64_py float_str (Number (- 100)) = Inr (Fin (- 100))"
    by (simp add: float64_py_def)
  from american_to_prob64_neg(1) [OF n]
  show "american_to_prob64 float_str (Number (- 100)) = Fin (1 / 2)" by simp
  have m: "float64_py float_str (Number 100) = Inr (Fin 100)"
    by (simp add: float64_py_def)
  from american_to_prob64_pos(1) [OF m]
  show "american_to_prob64 float_str (Number 100) = Fin (1 / 2)" by simp
qed

text \<open>
  Claim C3 (amended) at the prices -300 and 0, and on texts that parse to the
  infinities.
\<close>

theorem american_to_prob64_range_witness:
  "float64_py reject_text64 (Number (- 300)) = Inr (Fin (- 300))
   \<and> rnd (- 300) = - 300 \<and> \<bar>- 300 :: real\<bar> < 2 ^ 1024
   \<and> (\<exists>q. american_to_prob64 reject_text64 (Number (- 300)) = Fin q \<and> 0 < q \<and> q < 1)
   \<and> float64_py reject_text64 (Number 0) = Inr (Fin 0)
   \<and> rnd 0 = 0 \<and> \<bar>0 :: real\<bar> < 2 ^ 1024
   \<and> american_to_prob64 reject_text64 (Number 0) = Fin 1
   \<and> float64_py (\<lambda>s. Inr PInf) (Text ''inf'') = Inr PInf
   \<and> american_to_prob64 (\<lambda>s. Inr PInf) (Text ''inf'') = Fin 0
   \<and> float64_py (\<lambda>s. Inr NInf) (Text ''-inf'') = Inr NInf
   \<and> american_to_prob64 (\<lambda>s. Inr NInf) (Text ''-inf'') = NaN64"
proof -
  have r: "rnd (- 300) = - 300" using rnd_of_int [of "- 300"] by simp
  have c: "float64_py reject_text64 (Number (- 300)) = Inr (Fin (- 300))"
    "float64_py reject_text64 (Number 0) = Inr (Fin 0)"
    "float64_py (\<lambda>s. Inr PInf) (Text ''inf'') = Inr PInf"
    "float64_py (\<lambda>s. Inr NInf) (Text ''-inf'') = Inr NInf"
    by (simp_all add: float64_py_def)
  have "\<exists>q. american_to_prob64 reject_text64 (Number (- 300)) = Fin q \<and> 0 < q \<and> q < 1"
    using american_to_prob64_range [of reject_text64 "Number (- 300)" "- 300", THEN conjunct1] c(1) r
    by auto
  moreover have "american_to_prob64 reject_text64 (Number 0) = Fin 1"
    using american_to_prob64_range [of reject_text64 "Number 0" 0, THEN conjunct1] c(2)
    by auto
  moreover have "american_to_prob64 (\<lambda>s. Inr PInf) (Text ''inf'') = Fin 0"
    using american_to_prob64_range [of "\<lambda>s. Inr PInf" "Text ''inf''" 0] c(3) by simp
  moreover have "american_to_prob64 (\<lambda>s. Inr NInf) (Text ''-inf'') = NaN64"
    using american_to_prob64_range [of "\<lambda>s. Inr NInf" "Text ''-inf''" 0] c(4) by simp
  ultimately show ?thesis using r c by simp
qed

text \<open>
  Claim C3 as stated fails at the price 0, which parses as a number: the \<open>else\<close> branch
  computes 100 / (0 + 100) = 1. It also fails at the nonzero price \<open>- 2 ^ 60\<close>, a double:
  the sum \<open>2 ^ 60 + 100\<close> rounds to \<open>2 ^ 60\<close> and the quotient is 1.
\<close>

theorem american_to_prob64_zero_price:
  "float64_py reject_text64 (Number 0) = Inr (Fin 0)
   \<and> american_to_prob64 reject_text64 (Number 0) = Fin 1
   \<and> rnd (- (2 ^ 60)) = - (2 ^ 60)
   \<and> float64_py reject_text64 (Number (- (2 ^ 60))) = Inr (Fin (- (2 ^ 60)))
   \<and> american_to_prob64 reject_text64 (Number (- (2 ^ 60))) = Fin 1"
proof -
  have c: "float64_py reject_text64 (Number 0) = Inr (Fin 0)"
    by (simp add: float64_py_def)
  have "american_to_prob64 reject_text64 (Number 0) = Fin 1"
    using american_to_prob64_pos(1) [OF c] by simp
  moreover have "rnd (- (2 ^ 60)) = - (2 ^ 60)"
    using rnd_two_powi [of 60] by (simp add: rnd_minus)
  moreover have "float64_py reject_text64 (Number (- (2 ^ 60))) = Inr (Fin (- (2 ^ 60)))"
    by (simp add: float64_py_def)
  ultimately show ?thesis using c american_to_prob64_absorbed [of reject_text64] by simp
qed

section \<open>Price conversion\<close>

text \<open>
  The price of a positive \<open>p\<close> below 1. In the underdog branch (decimal odds at least
  2) the price is returned when \<^verbatim>\<open>(dec-1)*100\<close> is finite, and then \<^verbatim>\<open>1/p\<close> and
  \<^verbatim>\<open>dec-1\<close> are finite too; when it is infinite, \<^verbatim>\<open>round\<close> raises.
\<close>

lemma pta_pos:
  assumes "0 < p" and "p < 1" and "2 \<le> rnd (1 / p)"
    and "rnd (rnd (rnd (1 / p) - 1) * 100) < 2 ^ 1024"
  shows "prob_to_american (Fin p) = Inr (Some (py_round (rnd (rnd (rnd (1 / p) - 1) * 100))))"
    and "1 \<le> rnd (rnd (1 / p) - 1)"
    and "100 \<le> rnd (rnd (rnd (1 / p) - 1) * 100)"
proof -
  define d where "d = rnd (1 / p)"
  define u where "u = rnd (d - 1)"
  define v where "v = rnd (u * 100)"
  have d2: "2 \<le> d" using assms(3) by (simp add: d_def)
  have v2: "v < 2 ^ 1024" using assms(4) by (simp add: v_def u_def d_def)
  have u1: "1 \<le> u" unfolding u_def using d2 by (intro rnd_ge) simp_all
  have v1: "100 \<le> v" unfolding v_def using u1 by (intro rnd_ge) simp_all
  have uv: "u \<le> v" unfolding v_def using u1 by (intro rnd_ge) (simp_all add: u_def)
  have d1: "d < 2 ^ 1024"
  proof (rule ccontr)
    assume "\<not> d < 2 ^ 1024"
    then have "2 powi 1023 \<le> d - 1" by simp
    then have "2 powi 1023 \<le> u" unfolding u_def by (intro rnd_ge rnd_two_powi) simp_all
    then have "2 powi 1024 \<le> u * 100" by simp
    then have "2 powi 1024 \<le> v" unfolding v_def by (intro rnd_ge rnd_two_powi) simp_all
    with v2 show False by simp
  qed
  have "\<bar>rnd (1 / p)\<bar> < 2 ^ 1024" using d1 d2 unfolding d_def by simp
  then have f1: "fl (1 / p) = Fin d" unfolding d_def by (rule fl_Fin)
  have "\<bar>rnd (d - 1)\<bar> < 2 ^ 1024" using u1 uv v2 unfolding u_def by simp
  then have f2: "fl (d - 1) = Fin u" unfolding u_def by (rule fl_Fin)
  have "\<bar>rnd (u * 100)\<bar> < 2 ^ 1024" using v1 v2 unfolding v_def by simp
  then have f3: "fl (u * 100) = Fin v" unfolding v_def by (rule fl_Fin)
  have "prob_to_american (Fin p) = Inr (Some (py_round v))"
    using assms(1,2) d2 by (simp add: prob_to_american_def fge_def f1 fsub_def f2 f3)
  then show "prob_to_american (Fin p) = Inr (Some (py_round (rnd (rnd (rnd (1 / p) - 1) * 100))))"
    by (simp add: v_def u_def d_def)
  show "1 \<le> rnd (rnd (1 / p) - 1)" using u1 by (simp add: u_def d_def)
  show "100 \<le> rnd (rnd (rnd (1 / p) - 1) * 100)" using v1 by (simp add: v_def u_def d_def)
qed

lemma pta_overflow:
  assumes "0 < p" and "p < 1" and "2 \<le> rnd (1 / p)"
    and "2 ^ 1024 \<le> rnd (rnd (rnd (1 / p) - 1) * 100)"
  shows "prob_to_american (Fin p) = Inl OverflowError"
proof (cases "2 ^ 1024 \<le> rnd (1 / p)")
  case True
  then have "fl (1 / p) = PInf" by (simp add: fl_def)
  then show ?thesis using assms(1,2) by (simp add: prob_to_american_def fge_def fsub_def)
next
  case False
  define d where "d = rnd (1 / p)"
  define u where "u = rnd (d - 1)"
  have d2: "2 \<le> d" using assms(3) by (simp add: d_def)
  have d1: "d < 2 ^ 1024" using False by (simp add: d_def)
  have "\<bar>rnd (1 / p)\<bar> < 2 ^ 1024" using d1 d2 unfolding d_def by simp
  then have f1: "fl (1 / p) = Fin d" unfolding d_def by (rule fl_Fin)
  have u1: "1 \<le> u" unfolding u_def using d2 by (intro rnd_ge) simp_all
  have "u \<le> d" unfolding u_def by (intro rnd_le) (simp_all add: d_def)
  then have "\<bar>rnd (d - 1)\<bar> < 2 ^ 1024" using u1 d1 unfolding u_def by simp
  then have f2: "fl (d - 1) = Fin u" unfolding u_def by (rule fl_Fin)
  have "2 ^ 1024 \<le> rnd (u * 100)" using assms(4) by (simp add: u_def d_def)
  then have f3: "fl (u * 100) = PInf" by (simp add: fl_def)
  show ?thesis
    using assms(1,2) d2 by (simp add: prob_to_american_def fge_def f1 fsub_def f2 f3)
qed

text \<open>
  The formula does not overflow from \<open>2 ^ - 1017\<close> on (about \<open>7.1e-307\<close>), and it
  overflows up to \<open>2 ^ - 1024\<close> (about \<open>5.6e-309\<close>).
\<close>

lemma price_overflows_normal:
  assumes "2 powi (- 1017) \<le> p"
  shows "\<not> price_overflows p"
proof -
  define d where "d = rnd (1 / p)"
  define u where "u = rnd (d - 1)"
  define v where "v = rnd (u * 100)"
  have "1 / p \<le> 1 / 2 powi (- 1017)" using assms by (intro divide_left_mono) simp_all
  then have "1 / p \<le> 2 powi 1017" by (simp add: power_int_minus)
  then have d1: "d \<le> 2 powi 1017" unfolding d_def by (intro rnd_le rnd_two_powi) simp_all
  have u2: "u \<le> 2 powi 1017" unfolding u_def using d1 by (intro rnd_le rnd_two_powi) simp_all
  have "u * 100 \<le> 2 powi 1017 * 100" using u2 by simp
  also have "\<dots> = of_int 25 * 2 powi 1019" by simp
  finally have "rnd (u * 100) \<le> of_int 25 * 2 powi 1019"
    by (intro rnd_le rnd_fix) simp_all
  then have "v < 2 ^ 1024" by (simp add: v_def)
  then show ?thesis by (simp add: price_overflows_def v_def u_def d_def)
qed

lemma price_overflows_tiny:
  assumes "0 < p" and "p \<le> 2 powi (- 1024)"
  shows "price_overflows p"
proof -
  define d where "d = rnd (1 / p)"
  define u where "u = rnd (d - 1)"
  have "1 / 2 powi (- 1024) \<le> 1 / p" using assms by (intro divide_left_mono) simp_all
  then have "2 powi 1024 \<le> 1 / p" by (simp add: power_int_minus)
  then have d1: "2 powi 1024 \<le> d" unfolding d_def by (intro rnd_ge rnd_two_powi) simp_all
  then have "2 powi 1023 \<le> d - 1" by simp
  then have u1: "2 powi 1023 \<le> u" unfolding u_def by (intro rnd_ge rnd_two_powi) simp_all
  then have "2 powi 1024 \<le> u * 100" by simp
  then have "2 powi 1024 \<le> rnd (u * 100)" by (intro rnd_ge rnd_two_powi) simp_all
  moreover have "2 \<le> d" using d1 by simp
  ultimately show ?thesis by (simp add: price_overflows_def u_def d_def)
qed

text \<open>
  In the favourite branch (decimal odds below 2) \<open>p\<close> is above 1/2, the subtraction
  \<^verbatim>\<open>dec-1\<close> is exact and at least \<open>2 ^ - 52\<close>, and nothing overflows.
\<close>

lemma pta_neg:
  assumes "rnd p = p" and "0 < p" and "p < 1" and "rnd (1 / p) < 2"
  shows "prob_to_american (Fin p) = Inr (Some (py_round (rnd (- 100 / (rnd (1 / p) - 1)))))"
    and "above_one \<le> rnd (1 / p)"
    and "rnd (rnd (1 / p) - 1) = rnd (1 / p) - 1"
    and "rnd (- 100 / (rnd (1 / p) - 1)) \<le> - 100"
    and "- (of_int 25 * 2 powi 54) \<le> rnd (- 100 / (rnd (1 / p) - 1))"
proof -
  define d where "d = rnd (1 / p)"
  define t where "t = - 100 / (d - 1)"
  have "p \<le> below_one" using assms(1,2,3) by (intro f64_below_one) simp_all
  then have d1: "above_one \<le> d" unfolding d_def using assms(2) by (intro rnd_recip_ge)
  have d2: "d < 2" using assms(4) by (simp add: d_def)
  have "\<bar>rnd (1 / p)\<bar> < 2 ^ 1024" using d1 d2 unfolding d_def above_one_def by simp
  then have f1: "fl (1 / p) = Fin d" unfolding d_def by (rule fl_Fin)
  have "1 < 1 / p" using assms(2,3) by simp
  then have ex: "rnd (d - 1) = d - 1" unfolding d_def using assms(4) by (rule rnd_sub_one_exact)
  have w1: "2 powi (- 52) \<le> d - 1" using d1 by (simp add: above_one_def)
  have w0: "0 < d - 1" using w1 two_powi_pos [of "- 52"] by linarith
  have "\<bar>rnd (d - 1)\<bar> < 2 ^ 1024" using w0 d2 unfolding ex by simp
  then have "fl (d - 1) = Fin (rnd (d - 1))" by (rule fl_Fin)
  then have f2: "fl (d - 1) = Fin (d - 1)" by (simp only: ex)
  have "100 \<le> 100 / (d - 1)" using w0 d2 by (simp add: field_simps)
  then have "t \<le> - 100" by (simp add: t_def)
  moreover have "rnd (- 100) = - 100" using rnd_minus [of 100] by simp
  ultimately have t1: "rnd t \<le> - 100" by (intro rnd_le)
  have "100 / (d - 1) \<le> 100 / 2 powi (- 52)" using w1 by (intro divide_left_mono) simp_all
  also have "\<dots> = of_int 25 * 2 powi 54" by (simp add: power_int_minus)
  finally have "- (of_int 25 * 2 powi 54) \<le> t" by (simp add: t_def)
  moreover have "rnd (- (of_int 25 * 2 powi 54)) = - (of_int 25 * 2 powi 54)"
    using rnd_fix [of 54 25] by (simp only: rnd_minus) simp
  ultimately have t2: "- (of_int 25 * 2 powi 54) \<le> rnd t" by (intro rnd_ge)
  have "\<bar>rnd t\<bar> < 2 ^ 1024" using t1 t2 by simp
  then have f3: "fl t = Fin (rnd t)" by (rule fl_Fin)
  have "prob_to_american (Fin p) = Inr (Some (py_round (rnd t)))"
    using assms(2,3) d2 w0 f3
    by (simp add: prob_to_american_def fge_def f1 fsub_def f2 t_def)
  then show "prob_to_american (Fin p) = Inr (Some (py_round (rnd (- 100 / (rnd (1 / p) - 1)))))"
    by (simp add: t_def d_def)
  show "above_one \<le> rnd (1 / p)" using d1 by (simp add: d_def)
  show "rnd (rnd (1 / p) - 1) = rnd (1 / p) - 1" using ex by (simp add: d_def)
  show "rnd (- 100 / (rnd (1 / p) - 1)) \<le> - 100" using t1 by (simp add: t_def d_def)
  show "- (of_int 25 * 2 powi 54) \<le> rnd (- 100 / (rnd (1 / p) - 1))"
    using t2 by (simp add: t_def d_def)
qed

text \<open>\<open>prob_to_american\<close> computes the formula of the specification.\<close>

lemma prob_to_american_cases:
  assumes "rnd p = p"
  shows "p \<le> 0 \<or> 1 \<le> p \<Longrightarrow> prob_to_american (Fin p) = Inr None"
    and "0 < p \<Longrightarrow> p < 1 \<Longrightarrow> \<not> price_overflows p \<Longrightarrow>
           prob_to_american (Fin p) = Inr (Some (price_of p))"
    and "0 < p \<Longrightarrow> p < 1 \<Longrightarrow> price_overflows p \<Longrightarrow>
           prob_to_american (Fin p) = Inl OverflowError"
proof -
  show "prob_to_american (Fin p) = Inr None" if "p \<le> 0 \<or> 1 \<le> p"
    using that by (auto simp: prob_to_american_def fge_def)
  show "prob_to_american (Fin p) = Inr (Some (price_of p))"
    if "0 < p" and "p < 1" and "\<not> price_overflows p"
  proof (cases "2 \<le> rnd (1 / p)")
    case True
    with that(3) have "rnd (rnd (rnd (1 / p) - 1) * 100) < 2 ^ 1024"
      by (simp add: price_overflows_def)
    from pta_pos(1) [OF that(1,2) True this] True show ?thesis by (simp add: price_of_def)
  next
    case False
    then have lt: "rnd (1 / p) < 2" by simp
    note m = pta_neg [OF assms that(1,2) lt]
    from m(1) False show ?thesis by (simp add: price_of_def m(3))
  qed
  show "prob_to_american (Fin p) = Inl OverflowError"
    if "0 < p" and "p < 1" and "price_overflows p"
    using that pta_overflow [of p] by (simp add: price_overflows_def)
qed

lemma fdiv_Inl: "fdiv a b = Inl e \<Longrightarrow> e = ZeroDivisionError"
  by (cases b; cases a) (auto split: if_splits)

lemma round64_Inl: "round64 x = Inl e \<Longrightarrow> e = OverflowError \<or> e = ValueError"
  by (cases x) auto

lemma prob_to_american_Inl: "prob_to_american p = Inl e \<Longrightarrow> e \<noteq> KeyError"
  by (auto simp: prob_to_american_def split: if_splits sum.splits dest: fdiv_Inl round64_Inl)

section \<open>The price fed back into the Odds Converter\<close>

lemma back_pos:
  assumes "rnd v = v" and "100 \<le> v" and "v < 2 ^ 1024"
  shows "\<exists>q. american_to_prob64 float_str (Number (of_int (py_round v))) = Fin q
            \<and> 0 < q \<and> q < 1"
    and "100 \<le> py_round v"
    and "rnd (of_int (py_round v)) = (of_int (py_round v) :: real)"
    and "\<bar>of_int (py_round v) :: real\<bar> < 2 ^ 1024"
proof -
  define A where "A = py_round v"
  have "of_int 100 \<le> v" using assms(2) by simp
  then show A1: "100 \<le> py_round v" by (rule py_round_ge)
  have "\<bar>v\<bar> \<le> f64_max" using assms by (intro f64_le_max) simp_all
  then have "v \<le> of_int ((2 ^ 53 - 1) * 2 ^ 971)" by (simp add: f64_max_def)
  then have A2: "A \<le> (2 ^ 53 - 1) * 2 ^ 971" unfolding A_def by (rule py_round_le)
  show r: "rnd (of_int (py_round v)) = (of_int (py_round v) :: real)"
    using assms(1) by (rule rnd_round_int)
  have "(of_int A :: real) \<le> of_int ((2 ^ 53 - 1) * 2 ^ 971)" using A2 by (simp only: of_int_le_iff)
  then have "(of_int A :: real) \<le> f64_max" by (simp add: f64_max_def)
  then have "\<bar>of_int A :: real\<bar> < 2 ^ 1024" using A1 f64_max_less by (simp add: A_def)
  then show lt: "\<bar>of_int (py_round v) :: real\<bar> < 2 ^ 1024" by (simp add: A_def)
  have nn: "(0::real) \<le> of_int A" using A1 by (simp add: A_def)
  have c: "float64_py float_str (Number (of_int A)) = Inr (Fin (of_int A))"
    by (simp add: float64_py_def)
  have r': "rnd (of_int A) = (of_int A :: real)" and lt': "\<bar>of_int A :: real\<bar> < 2 ^ 1024"
    using r lt by (simp_all add: A_def)
  note m = american_to_prob64_pos [OF c r' lt' nn]
  have a: "(0::real) \<le> of_int A" "rnd (of_int A) = (of_int A :: real)" "(of_int A :: real) < 2 ^ 1024"
    using nn r' lt' by simp_all
  note b = sum_100_bounds [OF a]
  define s where "s = rnd (of_int A + 100)"
  have "(200::real) \<le> of_int A + 100" using A1 by (simp add: A_def)
  then have s1: "200 \<le> s" unfolding s_def by (intro rnd_ge) simp_all
  have s2: "s \<le> f64_max" using b(3) by (simp add: s_def)
  have "100 / s \<le> 1 / 2" using s1 by (simp add: field_simps)
  then have q1: "rnd (100 / s) \<le> 1 / 2" by (intro rnd_le) simp_all
  have "s < 2 ^ 1024" using s2 f64_max_less by linarith
  then have "100 / 2 ^ 1024 \<le> 100 / s" using s1 by (intro divide_left_mono) simp_all
  moreover have "(2::real) powi (- 1018) \<le> 100 / 2 ^ 1024" by (simp add: power_int_minus field_simps)
  ultimately have "2 powi (- 1018) \<le> 100 / s" by linarith
  then have "2 powi (- 1018) \<le> rnd (100 / s)" by (intro rnd_ge rnd_two_powi) simp_all
  then have q0: "0 < rnd (100 / s)" using two_powi_pos [of "- 1018"] by linarith
  show "\<exists>q. american_to_prob64 float_str (Number (of_int (py_round v))) = Fin q \<and> 0 < q \<and> q < 1"
    using m(1) q0 q1 by (simp add: A_def s_def)
qed

lemma back_neg:
  assumes "rnd v = v" and "v \<le> - 100" and "- (of_int 25 * 2 powi 54) \<le> v"
  shows "\<exists>q. american_to_prob64 float_str (Number (of_int (py_round v))) = Fin q
            \<and> 0 < q \<and> q < 1"
    and "py_round v \<le> - 100"
proof -
  define A where "A = py_round v"
  define a :: real where "a = of_int (- A)"
  have "v \<le> of_int (- 100)" using assms(2) by simp
  then show A1: "py_round v \<le> - 100" by (rule py_round_le)
  have "of_int (- (25 * 2 ^ 54)) \<le> v" using assms(3) by simp
  then have A2: "- (25 * 2 ^ 54) \<le> A" unfolding A_def by (rule py_round_ge)
  have "rnd (of_int A) = (of_int A :: real)" unfolding A_def using assms(1) by (rule rnd_round_int)
  then have r: "rnd a = a" using rnd_minus [of "of_int A"] by (simp add: a_def)
  have a1: "100 \<le> a" using A1 by (simp add: a_def A_def)
  have "- A \<le> 25 * 2 ^ 54" using A2 by linarith
  then have "(of_int (- A) :: real) \<le> of_int (25 * 2 ^ 54)" by (simp only: of_int_le_iff)
  then have a2: "a \<le> 25 * 2 ^ 54" by (simp add: a_def)
  have lt: "a < 2 ^ 1024"
  proof -
    have "(25::real) * 2 ^ 54 < 2 ^ 1024" by simp
    with a2 show ?thesis by linarith
  qed
  have a0: "0 < a" using a1 by simp
  have c: "float64_py float_str (Number (of_int A)) = Inr (Fin (- a))"
    by (simp add: float64_py_def a_def)
  note m = american_to_prob64_neg [OF c r lt a0]
  define s where "s = rnd (a + 100)"
  have x0: "a + 100 \<noteq> 0" using a0 by simp
  have "\<bar>a + 100\<bar> < 2 powi (6 + 53)" using a0 a2 by simp
  then have "expo (a + 100) \<le> 6" using x0 by (intro expo_le) simp_all
  then have "(2::real) powi expo (a + 100) \<le> 2 powi 6" by (rule two_powi_mono)
  with rnd_err [of "a + 100"] have "\<bar>s - (a + 100)\<bar> \<le> 32" by (simp add: s_def)
  then have s1: "a + 68 \<le> s" by linarith
  have "a + 100 \<le> 2 powi 59" using a2 by simp
  then have s2: "s \<le> 2 powi 59" unfolding s_def by (intro rnd_le rnd_two_powi) simp_all
  have s0: "0 < s" using s1 a0 by linarith
  have "100 / 2 powi 59 \<le> a / s" using s0 s2 a1 by (intro frac_le) simp_all
  moreover have "(2::real) powi (- 53) \<le> 100 / 2 powi 59" by (simp add: power_int_minus)
  ultimately have "2 powi (- 53) \<le> a / s" by linarith
  then have "2 powi (- 53) \<le> rnd (a / s)" by (intro rnd_ge rnd_two_powi) simp_all
  then have q0: "0 < rnd (a / s)" using two_powi_pos [of "- 53"] by linarith
  have "a / s \<le> a / (a + 68)" using s1 a0 by (intro divide_left_mono) simp_all
  also have "\<dots> \<le> below_one"
  proof -
    have "a * (1 / 2 ^ 53) \<le> 50" using a2 by simp
    then have "a \<le> below_one * (a + 68)"
      by (simp add: below_one_def power_int_minus algebra_simps)
    then show ?thesis using a0 by (simp add: field_simps)
  qed
  finally have "rnd (a / s) \<le> below_one" by (intro rnd_le rnd_below_one)
  then have q1: "rnd (a / s) < 1" using below_one_less by linarith
  show "\<exists>q. american_to_prob64 float_str (Number (of_int (py_round v))) = Fin q \<and> 0 < q \<and> q < 1"
    using m(1) q0 q1 by (simp add: A_def s_def)
qed

lemma prob_to_american_back:
  assumes "rnd p = p" and "0 < p" and "p < 1" and "\<not> price_overflows p"
  shows "\<exists>A. prob_to_american (Fin p) = Inr (Some A) \<and> 100 \<le> \<bar>A\<bar>
            \<and> (\<exists>q. american_to_prob64 float_str (Number (of_int A)) = Fin q \<and> 0 < q \<and> q < 1)"
proof (cases "2 \<le> rnd (1 / p)")
  case True
  with assms(4) have v: "rnd (rnd (rnd (1 / p) - 1) * 100) < 2 ^ 1024"
    by (simp add: price_overflows_def)
  note m = pta_pos [OF assms(2,3) True v]
  note b = back_pos [OF rnd_idem m(3) v]
  show ?thesis using m(1) b(1,2)
    by (intro exI [of _ "py_round (rnd (rnd (rnd (1 / p) - 1) * 100))"]) simp
next
  case False
  then have lt: "rnd (1 / p) < 2" by simp
  note m = pta_neg [OF assms(1,2,3) lt]
  note b = back_neg [OF rnd_idem m(4,5)]
  show ?thesis using m(1) b by (intro exI [of _ "py_round (rnd (- 100 / (rnd (1 / p) - 1)))"]) simp
qed

text \<open>
  Claim C10, amended. For every double \<open>p\<close> strictly between 0 and 1: when the formula
  does not overflow at \<open>p\<close>, the price conversion returns an integer of absolute value
  at least 100, and the Odds Converter maps this integer to a probability strictly between
  0 and 1; when the formula overflows, the price conversion raises OverflowError. The
  formula does not overflow from \<open>2 ^ - 1017\<close> on, and it overflows up to
  \<open>2 ^ - 1024\<close>.
\<close>

theorem prob_to_american_defined:
  assumes "rnd p = p" and "0 < p" and "p < 1"
  shows "(\<not> price_overflows p \<longrightarrow>
            (\<exists>A. prob_to_american (Fin p) = Inr (Some A) \<and> 100 \<le> \<bar>A\<bar>
               \<and> (\<exists>q. american_to_prob64 float_str (Number (of_int A)) = Fin q
                     \<and> 0 < q \<and> q < 1)))
       \<and> (price_overflows p \<longrightarrow> prob_to_american (Fin p) = Inl OverflowError)
       \<and> (2 powi (- 1017) \<le> p \<longrightarrow> \<not> price_overflows p)
       \<and> (p \<le> 2 powi (- 1024) \<longrightarrow> price_overflows p)"
  using prob_to_american_back [OF assms] prob_to_american_cases(3) [OF assms]
    price_overflows_normal [of p] price_overflows_tiny [OF assms(2)]
  by simp

text \<open>Claim C10 (amended) at \<open>p = 1/2\<close> and at \<open>p = 2 ^ - 1030\<close>.\<close>

theorem prob_to_american_defined_witness:
  "rnd (1 / 2) = 1 / 2 \<and> (0::real) < 1 / 2 \<and> (1 / 2 :: real) < 1
   \<and> (2::real) powi (- 1017) \<le> 1 / 2 \<and> \<not> price_overflows (1 / 2)
   \<and> (\<exists>A. prob_to_american (Fin (1 / 2)) = Inr (Some A) \<and> 100 \<le> \<bar>A\<bar>
         \<and> (\<exists>q. american_to_prob64 reject_text64 (Number (of_int A)) = Fin q \<and> 0 < q \<and> q < 1))
   \<and> rnd (2 powi (- 1030)) = 2 powi (- 1030)
   \<and> (0::real) < 2 powi (- 1030) \<and> (2::real) powi (- 1030) < 1
   \<and> (2::real) powi (- 1030) \<le> 2 powi (- 1024) \<and> price_overflows (2 powi (- 1030))
   \<and> prob_to_american (Fin (2 powi (- 1030))) = Inl OverflowError"
proof -
  have a: "(2::real) powi (- 1017) \<le> 1 / 2"
    using two_powi_mono [of "- 1017" "- 1"] by simp
  have b: "(0::real) < 1 / 2" "(1 / 2 :: real) < 1" by simp_all
  note t = prob_to_american_defined [OF rnd_half b, of reject_text64]
  from t a have n: "\<not> price_overflows (1 / 2)" by blast
  with t have e: "\<exists>A. prob_to_american (Fin (1 / 2)) = Inr (Some A) \<and> 100 \<le> \<bar>A\<bar>
         \<and> (\<exists>q. american_to_prob64 reject_text64 (Number (of_int A)) = Fin q \<and> 0 < q \<and> q < 1)"
    by blast
  define x :: real where "x = 2 powi (- 1030)"
  have r: "rnd x = x" unfolding x_def by (rule rnd_two_powi) simp
  have x0: "0 < x" by (simp add: x_def)
  have "(2::real) powi (- 1030) < 2 powi 0" by (rule two_powi_strict_mono) simp
  then have x1: "x < 1" by (simp add: x_def)
  have le: "x \<le> 2 powi (- 1024)" unfolding x_def by (rule two_powi_mono) simp
  note u = prob_to_american_defined [OF r x0 x1, of reject_text64]
  from u le have o: "price_overflows x" by blast
  with u have f: "prob_to_american (Fin x) = Inl OverflowError" by blast
  show ?thesis
    using a b n e r x0 x1 le o f unfolding x_def by (intro conjI rnd_half)
qed

text \<open>
  Claim C10 as stated fails at \<open>p = 2 ^ - 1030\<close>, a double strictly between 0 and 1:
  \<^verbatim>\<open>1/p\<close> overflows to infinity and \<^verbatim>\<open>round\<close> raises OverflowError, so no integer is
  returned.
\<close>

theorem prob_to_american_raises:
  "rnd (2 powi (- 1030)) = 2 powi (- 1030)
   \<and> (0::real) < 2 powi (- 1030) \<and> (2::real) powi (- 1030) < 1
   \<and> prob_to_american (Fin (2 powi (- 1030))) = Inl OverflowError"
proof -
  define x :: real where "x = 2 powi (- 1030)"
  have r: "rnd x = x" unfolding x_def by (rule rnd_two_powi) simp
  have x0: "0 < x" by (simp add: x_def)
  have "(2::real) powi (- 1030) < 2 powi 0" by (rule two_powi_strict_mono) simp
  then have x1: "x < 1" by (simp add: x_def)
  have le: "x \<le> 2 powi (- 1024)" unfolding x_def by (rule two_powi_mono) simp
  have "prob_to_american (Fin x) = Inl OverflowError"
    using r x0 x1 price_overflows_tiny [OF x0 le] by (rule prob_to_american_cases(3))
  with r x0 x1 show ?thesis unfolding x_def by (intro conjI)
qed

section \<open>The round trip\<close>

text \<open>
  The error of the round trip in real arithmetic, from the relative error of each
  rounded operation and the half unit of \<^verbatim>\<open>round\<close>.
\<close>

lemma rt_pos_arith:
  fixes D d u v a s q :: real
  assumes "0 < D" and "2 \<le> d" and "\<bar>d - D\<bar> \<le> D / 2 ^ 53"
    and "\<bar>u - (d - 1)\<bar> \<le> (d - 1) / 2 ^ 53"
    and "\<bar>v - u * 100\<bar> \<le> u * 100 / 2 ^ 53"
    and "\<bar>a - v\<bar> \<le> 1 / 2"
    and "\<bar>s - (a + 100)\<bar> \<le> (a + 100) / 2 ^ 53"
    and "\<bar>q - 100 / s\<bar> \<le> 100 / s / 2 ^ 53"
  shows "\<bar>q - 1 / D\<bar> \<le> 1 / 750"
proof -
  note h = assms(3,4,5,7) [unfolded pow2_53]
  have D1: "1999 / 1000 \<le> D" using assms(2) h(1) by argo
  have u1: "999 / 1000 \<le> u" using assms(2) h(2) by argo
  have v1: "99 \<le> v" using u1 h(3) by argo
  have a1: "98 \<le> a" using v1 assms(6) by argo
  have dU: "d \<le> D * (1 + 1 / 9007199254740992)" and dL: "D * (1 - 1 / 9007199254740992) \<le> d"
    using h(1) by argo+
  have uU: "u \<le> D * (1 + 3 / 9007199254740992) - 1"
    and uL: "D * (1 - 3 / 9007199254740992) - 1 \<le> u"
    using h(2) dU dL assms(1,2) by argo+
  have vU: "v \<le> 100 * D * (1 + 5 / 9007199254740992) - 100"
    and vL: "100 * D * (1 - 5 / 9007199254740992) - 100 \<le> v"
    using h(3) uU uL u1 assms(1) by argo+
  have aU: "a + 100 \<le> 100 * D * (1 + 5 / 9007199254740992) + 1 / 2"
    and aL: "100 * D * (1 - 5 / 9007199254740992) - 1 / 2 \<le> a + 100"
    using assms(6) vU vL by argo+
  have sL: "100 * D * (1 - 1 / 1000000000000000) - 501 / 1000 \<le> s"
    using h(4) aL aU a1 assms(1) by argo
  have sU: "s \<le> 100 * D * (1 + 1 / 1000000000000000) + 501 / 1000"
    using h(4) aL aU a1 assms(1) by argo
  have s1: "997 / 10 * D \<le> s" using sL D1 by argo
  have s0: "100 \<le> s" using s1 D1 by argo
  define P where "P = s * D"
  define Q where "Q = D * D"
  have "997 / 10 * D * D \<le> s * D" using s1 assms(1) by (intro mult_right_mono) simp_all
  then have "997 / 10 * Q \<le> P" by (simp add: P_def Q_def)
  moreover have "1999 / 1000 * D \<le> D * D" using D1 assms(1) by (intro mult_right_mono) simp_all
  then have "1999 / 1000 * D \<le> Q" by (simp add: Q_def)
  ultimately have sD: "997 / 10 * (1999 / 1000 * D) \<le> P" by argo
  have "\<bar>100 * D - s\<bar> \<le> 1 / 770 * P" using sL sU sD D1 by argo
  then have "\<bar>100 * D - s\<bar> \<le> 1 / 770 * (s * D)" by (simp add: P_def)
  moreover have "0 < s * D" using s0 assms(1) by simp
  ultimately have "\<bar>(100 * D - s) / (s * D)\<bar> \<le> 1 / 770" by (intro abs_div_le)
  moreover have "100 / s - 1 / D = (100 * D - s) / (s * D)"
    using s0 assms(1) by (simp add: field_simps)
  ultimately have m: "\<bar>100 / s - 1 / D\<bar> \<le> 1 / 770" by simp
  have "100 / s \<le> 1" using s0 by simp
  then have "100 / s / 2 ^ 53 \<le> 1 / 2 ^ 53" by (simp add: field_simps)
  with assms(8) have "\<bar>q - 100 / s\<bar> \<le> 1 / 2 ^ 53" by linarith
  then have n: "\<bar>q - 100 / s\<bar> \<le> 1 / 9007199254740992" by simp
  define w where "w = 100 / s"
  define p where "p = 1 / D"
  from m n have "\<bar>w - p\<bar> \<le> 1 / 770" "\<bar>q - w\<bar> \<le> 1 / 9007199254740992"
    by (simp_all only: w_def p_def)
  then have "\<bar>q - p\<bar> \<le> 1 / 750" by argo
  then show ?thesis by (simp only: p_def)
qed

lemma frac_close:
  fixes a T :: real
  assumes "100 \<le> T" and "100 \<le> a" and "\<bar>a - T\<bar> \<le> T / 2 ^ 53 + 1 / 2"
  shows "\<bar>a / (a + 100) - T / (T + 100)\<bar> \<le> 1 / 795"
proof -
  note h = assms(3) [unfolded pow2_53]
  define P where "P = (a + 100) * (T + 100)"
  have "200 * (T + 100) \<le> (a + 100) * (T + 100)"
    using assms(1,2) by (intro mult_right_mono) simp_all
  then have "200 * (T + 100) \<le> P" by (simp add: P_def)
  then have "\<bar>100 * (a - T)\<bar> \<le> 1 / 795 * P"
    using assms(1,2) h by argo
  then have "\<bar>100 * (a - T)\<bar> \<le> 1 / 795 * ((a + 100) * (T + 100))" by (simp add: P_def)
  moreover have "0 < (a + 100) * (T + 100)" using assms(1,2) by simp
  ultimately have "\<bar>100 * (a - T) / ((a + 100) * (T + 100))\<bar> \<le> 1 / 795"
    by (intro abs_div_le)
  moreover have "a / (a + 100) - T / (T + 100) = 100 * (a - T) / ((a + 100) * (T + 100))"
    using assms(1,2) by (simp add: field_simps)
  ultimately show ?thesis by simp
qed

lemma rt_neg_arith:
  fixes D d T t a s q :: real
  assumes "1 < D" and "1 < d" and "d \<le> 2" and "\<bar>d - D\<bar> \<le> D / 2 ^ 53"
    and "T = 100 / (d - 1)"
    and "\<bar>t - T\<bar> \<le> T / 2 ^ 53"
    and "\<bar>a - t\<bar> \<le> 1 / 2"
    and "100 \<le> a"
    and "\<bar>s - (a + 100)\<bar> \<le> (a + 100) / 2 ^ 53"
    and "\<bar>q - a / s\<bar> \<le> a / s / 2 ^ 53"
  shows "\<bar>q - 1 / D\<bar> \<le> 1 / 750"
proof -
  note h = assms(4,6,9) [unfolded pow2_53]
  have D0: "0 < D" using assms(1) by simp
  have w: "0 < d - 1" "d - 1 \<le> 1" using assms(2,3) by simp_all
  have T1: "100 \<le> T" unfolding assms(5) using w by (simp add: field_simps)
  define P where "P = d * D"
  have "1 * D \<le> d * D" using assms(2) D0 by (intro mult_right_mono) simp_all
  then have "D \<le> P" by (simp add: P_def)
  then have "\<bar>D - d\<bar> \<le> 1 / 9007199254740992 * P" using h(1) by argo
  then have "\<bar>D - d\<bar> \<le> 1 / 9007199254740992 * (d * D)" by (simp add: P_def)
  moreover have "0 < d * D" using assms(1,2) by simp
  ultimately have "\<bar>(D - d) / (d * D)\<bar> \<le> 1 / 9007199254740992" by (intro abs_div_le)
  moreover have "1 / d - 1 / D = (D - d) / (d * D)"
    using assms(1,2) by (simp add: field_simps)
  ultimately have e1: "\<bar>1 / d - 1 / D\<bar> \<le> 1 / 9007199254740992" by simp
  have e2: "T / (T + 100) = 1 / d"
  proof -
    have dn: "d - 1 \<noteq> 0" using w(1) by simp
    have "100 = T * (d - 1)"
      by (rule iffD1 [OF nonzero_divide_eq_eq [OF dn] assms(5) [symmetric]])
    then have "T * d = T + 100" by (simp add: algebra_simps)
    then have "T = (T + 100) * (1 / d)" using assms(2) by (simp add: field_simps)
    moreover have "T + 100 \<noteq> 0" using T1 by simp
    ultimately show ?thesis by (simp add: field_simps)
  qed
  have "\<bar>a - T\<bar> \<le> T / 2 ^ 53 + 1 / 2" using assms(6,7) by argo
  with T1 assms(8) have e3: "\<bar>a / (a + 100) - T / (T + 100)\<bar> \<le> 1 / 795" by (intro frac_close)
  have s2: "a \<le> 2 * s" "s \<le> 4 * a" using assms(8) h(3) by argo+
  have s0: "0 < s" using s2(1) assms(8) by linarith
  have g: "0 < a + 100" using assms(8) by simp
  have "a * (a + 100) \<le> 2 * s * (a + 100)" using s2(1) g by (intro mult_right_mono) simp_all
  moreover have "\<bar>a * ((a + 100) - s)\<bar> = a * \<bar>(a + 100) - s\<bar>"
    using assms(8) by (simp add: abs_mult)
  moreover have "\<bar>(a + 100) - s\<bar> \<le> (a + 100) / 9007199254740992"
    using h(3) by argo
  then have "a * \<bar>(a + 100) - s\<bar> \<le> a * ((a + 100) / 9007199254740992)"
    using assms(8) by (intro mult_left_mono) simp_all
  ultimately have "\<bar>a * ((a + 100) - s)\<bar> \<le> 1 / 4503599627370496 * (s * (a + 100))"
    by (simp add: algebra_simps)
  moreover have "0 < s * (a + 100)" using s0 g by simp
  ultimately have "\<bar>a * ((a + 100) - s) / (s * (a + 100))\<bar> \<le> 1 / 4503599627370496"
    by (intro abs_div_le)
  moreover have "a / s - a / (a + 100) = a * ((a + 100) - s) / (s * (a + 100))"
    using s0 g by (simp add: field_simps)
  ultimately have e4: "\<bar>a / s - a / (a + 100)\<bar> \<le> 1 / 4503599627370496" by simp
  have "a / s \<le> 2" using s0 s2(1) by (simp add: field_simps)
  then have "a / s / 9007199254740992 \<le> 2 / 9007199254740992" by simp
  with assms(10) [unfolded pow2_53] have e5: "\<bar>q - a / s\<bar> \<le> 2 / 9007199254740992" by linarith
  define p where "p = 1 / D"
  define x1 where "x1 = 1 / d"
  define x2 where "x2 = a / (a + 100)"
  define x3 where "x3 = a / s"
  from e1 have "\<bar>x1 - p\<bar> \<le> 1 / 9007199254740992" by (simp only: x1_def p_def)
  moreover from e3 have "\<bar>x2 - x1\<bar> \<le> 1 / 795" by (simp only: e2 x1_def x2_def)
  moreover from e4 have "\<bar>x3 - x2\<bar> \<le> 1 / 4503599627370496" by (simp only: x3_def x2_def)
  moreover from e5 have "\<bar>q - x3\<bar> \<le> 2 / 9007199254740992" by (simp only: x3_def)
  ultimately have "\<bar>q - p\<bar> \<le> 1 / 750" by argo
  then show ?thesis by (simp only: p_def)
qed

lemma roundtrip_pos64:
  assumes "0 < p" and "p < 1" and "2 \<le> rnd (1 / p)"
    and "rnd (rnd (rnd (1 / p) - 1) * 100) < 2 ^ 1024"
  shows "\<exists>A q. prob_to_american (Fin p) = Inr (Some A)
           \<and> american_to_prob64 float_str (Number (of_int A)) = Fin q
           \<and> \<bar>q - p\<bar> \<le> 1 / 750"
proof -
  note m = pta_pos [OF assms]
  define D where "D = 1 / p"
  define d where "d = rnd D"
  define u where "u = rnd (d - 1)"
  define v where "v = rnd (u * 100)"
  define A where "A = py_round v"
  define s where "s = rnd (of_int A + 100)"
  define q where "q = rnd (100 / s)"
  have D1: "1 \<le> D" using assms(1,2) by (simp add: D_def)
  have D0: "0 < D" using D1 by simp
  have d2: "2 \<le> d" using assms(3) by (simp add: d_def D_def)
  have u1: "1 \<le> u" using m(2) by (simp add: u_def d_def D_def)
  have v1: "100 \<le> v" using m(3) by (simp add: v_def u_def d_def D_def)
  have v2: "v < 2 ^ 1024" using assms(4) by (simp add: v_def u_def d_def D_def)
  have rv: "rnd v = v" by (simp add: v_def)
  note bp = back_pos [OF rv v1 v2]
  have A1: "100 \<le> A" unfolding A_def by (rule bp(2))
  have r: "rnd (of_int A) = (of_int A :: real)" unfolding A_def by (rule bp(3))
  have lt: "\<bar>of_int A :: real\<bar> < 2 ^ 1024" unfolding A_def by (rule bp(4))
  have nn: "(0::real) \<le> of_int A" using A1 by simp
  have c: "float64_py float_str (Number (of_int A)) = Inr (Fin (of_int A))"
    by (simp add: float64_py_def)
  note b = american_to_prob64_pos [OF c r lt nn]
  have a: "(0::real) \<le> of_int A" "rnd (of_int A) = (of_int A :: real)" "(of_int A :: real) < 2 ^ 1024"
    using nn r lt by simp_all
  note sb = sum_100_bounds [OF a]
  have s1: "100 \<le> s" using sb(1) by (simp add: s_def)
  have s2: "s < 2 ^ 1024" using sb(3) f64_max_less by (simp add: s_def)
  have "100 / 2 ^ 1024 \<le> 100 / s" using s1 s2 by (intro divide_left_mono) simp_all
  moreover have "(2::real) powi (- 1022) \<le> 100 / 2 ^ 1024" by (simp add: power_int_minus field_simps)
  ultimately have n6: "2 powi (- 1022) \<le> 100 / s" by linarith
  have e1: "\<bar>d - D\<bar> \<le> D / 2 ^ 53"
    unfolding d_def using D1 one_normal by (intro rnd_rel_err_pos) linarith
  have e2: "\<bar>u - (d - 1)\<bar> \<le> (d - 1) / 2 ^ 53"
    unfolding u_def using d2 one_normal by (intro rnd_rel_err_pos) linarith
  have e3: "\<bar>v - u * 100\<bar> \<le> u * 100 / 2 ^ 53"
    unfolding v_def using u1 one_normal by (intro rnd_rel_err_pos) linarith
  have e4: "\<bar>of_int A - v\<bar> \<le> 1 / 2" unfolding A_def by (rule py_round_abs)
  have e5: "\<bar>s - (of_int A + 100)\<bar> \<le> (of_int A + 100) / 2 ^ 53"
    unfolding s_def using nn one_normal by (intro rnd_rel_err_pos) linarith
  have e6: "\<bar>q - 100 / s\<bar> \<le> 100 / s / 2 ^ 53"
    unfolding q_def using n6 by (rule rnd_rel_err_pos)
  have "\<bar>q - 1 / D\<bar> \<le> 1 / 750" by (rule rt_pos_arith [OF D0 d2 e1 e2 e3 e4 e5 e6])
  then have "\<bar>q - p\<bar> \<le> 1 / 750" by (simp add: D_def)
  moreover have "prob_to_american (Fin p) = Inr (Some A)"
    using m(1) by (simp add: A_def v_def u_def d_def D_def)
  moreover have "american_to_prob64 float_str (Number (of_int A)) = Fin q"
    using b(1) by (simp add: q_def s_def)
  ultimately show ?thesis by (intro exI [of _ A] exI [of _ q] conjI)
qed

lemma roundtrip_neg64:
  assumes "rnd p = p" and "0 < p" and "p < 1" and "rnd (1 / p) < 2"
  shows "\<exists>A q. prob_to_american (Fin p) = Inr (Some A)
           \<and> american_to_prob64 float_str (Number (of_int A)) = Fin q
           \<and> \<bar>q - p\<bar> \<le> 1 / 750"
proof -
  note m = pta_neg [OF assms]
  define D where "D = 1 / p"
  define d where "d = rnd D"
  define T where "T = 100 / (d - 1)"
  define t where "t = rnd T"
  define A where "A = py_round (- t)"
  define a :: real where "a = of_int (- A)"
  define s where "s = rnd (a + 100)"
  define q where "q = rnd (a / s)"
  have D1: "1 < D" using assms(2,3) by (simp add: D_def)
  have "above_one \<le> d" using m(2) by (simp add: d_def D_def)
  then have d1: "1 < d" using two_powi_pos [of "- 52"] by (simp add: above_one_def)
  have d2: "d \<le> 2" using assms(4) by (simp add: d_def D_def)
  have nt: "- 100 / (d - 1) = - T" by (simp add: T_def)
  have rt: "rnd (- 100 / (rnd (1 / p) - 1)) = - t"
    using nt by (simp add: d_def D_def t_def rnd_minus)
  have t1: "- t \<le> - 100" using m(4) by (simp only: rt)
  have t2: "- (of_int 25 * 2 powi 54) \<le> - t" using m(5) by (simp only: rt)
  have rr: "rnd (- t) = - t" by (simp add: rnd_minus t_def)
  have A1: "A \<le> - 100" unfolding A_def by (rule back_neg(2) [OF rr t1 t2])
  have "of_int (- (25 * 2 ^ 54)) \<le> - t" using t2 by simp
  then have A2: "- (25 * 2 ^ 54) \<le> A" unfolding A_def by (rule py_round_ge)
  have "rnd (of_int A) = (of_int A :: real)" unfolding A_def using rr by (rule rnd_round_int)
  then have r: "rnd a = a" using rnd_minus [of "of_int A"] by (simp add: a_def)
  have a1: "100 \<le> a" using A1 by (simp add: a_def)
  have "- A \<le> 25 * 2 ^ 54" using A2 by linarith
  then have "(of_int (- A) :: real) \<le> of_int (25 * 2 ^ 54)" by (simp only: of_int_le_iff)
  then have a2: "a \<le> 25 * 2 ^ 54" by (simp add: a_def)
  have lt: "a < 2 ^ 1024"
  proof -
    have "(25::real) * 2 ^ 54 < 2 ^ 1024" by simp
    with a2 show ?thesis by linarith
  qed
  have a0: "0 < a" using a1 by simp
  have c: "float64_py float_str (Number (of_int A)) = Inr (Fin (- a))"
    by (simp add: float64_py_def a_def)
  note b = american_to_prob64_neg [OF c r lt a0]
  have w: "0 < d - 1" "d - 1 \<le> 1" using d1 d2 by simp_all
  have T1: "100 \<le> T" unfolding T_def using w by (simp add: field_simps)
  have e1: "\<bar>d - D\<bar> \<le> D / 2 ^ 53"
    unfolding d_def using D1 one_normal by (intro rnd_rel_err_pos) linarith
  have e2: "\<bar>t - T\<bar> \<le> T / 2 ^ 53"
    unfolding t_def using T1 one_normal by (intro rnd_rel_err_pos) linarith
  have "\<bar>of_int (py_round t) - t\<bar> \<le> 1 / 2" by (rule py_round_abs)
  then have e3: "\<bar>a - t\<bar> \<le> 1 / 2" by (simp add: a_def A_def py_round_minus)
  have e4: "\<bar>s - (a + 100)\<bar> \<le> (a + 100) / 2 ^ 53"
    unfolding s_def using a0 one_normal by (intro rnd_rel_err_pos) linarith
  have "s \<le> 4 * a" using e4 [unfolded pow2_53] a1 by argo
  moreover have s0: "0 < s" using e4 [unfolded pow2_53] a1 by argo
  ultimately have "1 / 4 \<le> a / s" by (simp add: field_simps)
  moreover have "(2::real) powi (- 1022) \<le> 1 / 4" using two_powi_mono [of "- 1022" "- 2"] by simp
  ultimately have n5: "2 powi (- 1022) \<le> a / s" by linarith
  have e5: "\<bar>q - a / s\<bar> \<le> a / s / 2 ^ 53"
    unfolding q_def using n5 by (rule rnd_rel_err_pos)
  have "\<bar>q - 1 / D\<bar> \<le> 1 / 750"
    by (rule rt_neg_arith [OF D1 d1 d2 e1 T_def e2 e3 a1 e4 e5])
  then have "\<bar>q - p\<bar> \<le> 1 / 750" by (simp add: D_def)
  moreover have "prob_to_american (Fin p) = Inr (Some A)"
    using m(1) by (simp only: rt A_def)
  moreover have "american_to_prob64 float_str (Number (of_int A)) = Fin q"
    using b(1) by (simp add: q_def s_def)
  ultimately show ?thesis by (intro exI [of _ A] exI [of _ q] conjI)
qed

lemma roundtrip64:
  assumes "rnd p = p" and "0 < p" and "p < 1" and "\<not> price_overflows p"
  shows "\<exists>A q. prob_to_american (Fin p) = Inr (Some A)
           \<and> american_to_prob64 float_str (Number (of_int A)) = Fin q
           \<and> \<bar>q - p\<bar> \<le> 1 / 750"
proof (cases "2 \<le> rnd (1 / p)")
  case True
  with assms(4) have "rnd (rnd (rnd (1 / p) - 1) * 100) < 2 ^ 1024"
    by (simp add: price_overflows_def)
  then show ?thesis by (rule roundtrip_pos64 [OF assms(2,3) True])
next
  case False
  then have "rnd (1 / p) < 2" by simp
  then show ?thesis by (rule roundtrip_neg64 [OF assms(1,2,3)])
qed

text \<open>
  Claim C8, amended. For every double \<open>p\<close> strictly between 0 and 1 at which the
  formula does not overflow (every \<open>p\<close> from \<open>2 ^ - 1017\<close> on), the price conversion
  returns a price, and the Odds Converter maps this price to a probability within 1/750
  of \<open>p\<close>. Where the formula overflows (every \<open>p\<close> up to \<open>2 ^ - 1024\<close>) the price
  conversion raises OverflowError and there is no price to convert back.
\<close>

theorem price_round_trip:
  assumes "rnd p = p" and "0 < p" and "p < 1"
  shows "(\<not> price_overflows p \<longrightarrow>
            (\<exists>A q. prob_to_american (Fin p) = Inr (Some A)
               \<and> american_to_prob64 float_str (Number (of_int A)) = Fin q
               \<and> \<bar>q - p\<bar> \<le> 1 / 750))
       \<and> (price_overflows p \<longrightarrow> prob_to_american (Fin p) = Inl OverflowError)
       \<and> (2 powi (- 1017) \<le> p \<longrightarrow> \<not> price_overflows p)
       \<and> (p \<le> 2 powi (- 1024) \<longrightarrow> price_overflows p)"
  using roundtrip64 [OF assms] prob_to_american_cases(3) [OF assms]
    price_overflows_normal [of p] price_overflows_tiny [OF assms(2)]
  by simp

text \<open>Claim C8 (amended) at \<open>p = 1/4\<close> and at \<open>p = 2 ^ - 1074\<close>.\<close>

theorem price_round_trip_witness:
  "rnd (1 / 4) = 1 / 4 \<and> (0::real) < 1 / 4 \<and> (1 / 4 :: real) < 1
   \<and> (2::real) powi (- 1017) \<le> 1 / 4 \<and> \<not> price_overflows (1 / 4)
   \<and> (\<exists>A q. prob_to_american (Fin (1 / 4)) = Inr (Some A)
         \<and> american_to_prob64 reject_text64 (Number (of_int A)) = Fin q
         \<and> \<bar>q - 1 / 4\<bar> \<le> 1 / 750)
   \<and> rnd (2 powi (- 1074)) = 2 powi (- 1074)
   \<and> (0::real) < 2 powi (- 1074) \<and> (2::real) powi (- 1074) < 1
   \<and> (2::real) powi (- 1074) \<le> 2 powi (- 1024) \<and> price_overflows (2 powi (- 1074))
   \<and> prob_to_american (Fin (2 powi (- 1074))) = Inl OverflowError"
proof -
  have r4: "rnd (1 / 4) = 1 / 4" using rnd_fix [of "- 2" 1] by simp
  have a: "(2::real) powi (- 1017) \<le> 1 / 4"
    using two_powi_mono [of "- 1017" "- 2"] by simp
  have b: "(0::real) < 1 / 4" "(1 / 4 :: real) < 1" by simp_all
  note t = price_round_trip [OF r4 b, of reject_text64]
  from t a have n: "\<not> price_overflows (1 / 4)" by blast
  with t have e: "\<exists>A q. prob_to_american (Fin (1 / 4)) = Inr (Some A)
         \<and> american_to_prob64 reject_text64 (Number (of_int A)) = Fin q
         \<and> \<bar>q - 1 / 4\<bar> \<le> 1 / 750"
    by blast
  define x :: real where "x = 2 powi (- 1074)"
  have r: "rnd x = x" unfolding x_def by (rule rnd_two_powi) simp
  have x0: "0 < x" by (simp add: x_def)
  have "(2::real) powi (- 1074) < 2 powi 0" by (rule two_powi_strict_mono) simp
  then have x1: "x < 1" by (simp add: x_def)
  have le: "x \<le> 2 powi (- 1024)" unfolding x_def by (rule two_powi_mono) simp
  note u = price_round_trip [OF r x0 x1, of reject_text64]
  from u le have o: "price_overflows x" by blast
  with u have f: "prob_to_american (Fin x) = Inl OverflowError" by blast
  show ?thesis
    using r4 a b n e r x0 x1 le o f unfolding x_def by (intro conjI)
qed

text \<open>
  Claim C8 as stated fails at the smallest positive double \<open>2 ^ - 1074\<close>: the price
  conversion raises OverflowError, so there is no price to convert back.
\<close>

theorem price_round_trip_raises:
  "rnd (2 powi (- 1074)) = 2 powi (- 1074)
   \<and> (0::real) < 2 powi (- 1074) \<and> (2::real) powi (- 1074) < 1
   \<and> prob_to_american (Fin (2 powi (- 1074))) = Inl OverflowError"
proof -
  define x :: real where "x = 2 powi (- 1074)"
  have r: "rnd x = x" unfolding x_def by (rule rnd_two_powi) simp
  have x0: "0 < x" by (simp add: x_def)
  have "(2::real) powi (- 1074) < 2 powi 0" by (rule two_powi_strict_mono) simp
  then have x1: "x < 1" by (simp add: x_def)
  have le: "x \<le> 2 powi (- 1024)" unfolding x_def by (rule two_powi_mono) simp
  have "prob_to_american (Fin x) = Inl OverflowError"
    using r x0 x1 price_overflows_tiny [OF x0 le] by (rule prob_to_american_cases(3))
  with r x0 x1 show ?thesis unfolding x_def by (intro conjI)
qed

section \<open>Concrete runs\<close>

lemmas run_simps =
  sample_offer_def dropna_required_def annotate_def fair_def book_prob_col_def
  median_py_def american_to_prob_def american_to_prob_try_def float_py_def in_band_def
  best_py_def loc_def groupby_idxmax_def group_keys_def group_ev_def idxmax_py_def
  gcols_def key_has_null_def enumerate_simps offer.defs row.defs pool_row.defs
  singles_py_def sort_values_desc_def Let_def reject_text_def

section \<open>Undefined values downstream\<close>

lemma defined_vals_append: "defined_vals (xs @ ys) = defined_vals xs @ defined_vals ys"
  by (induction xs rule: defined_vals.induct) simp_all

lemma defined_vals_filter:
  "defined_vals (map f (filter (\<lambda>r. f r \<noteq> NaN) xs)) = defined_vals (map f xs)"
proof (induction xs)
  case Nil
  then show ?case by simp
next
  case (Cons x xs)
  then show ?case by (cases "f x") simp_all
qed

lemma median_py_cong: "defined_vals xs = defined_vals ys \<Longrightarrow> median_py xs = median_py ys"
  by (simp add: median_py_def)

lemma median_py_single: "defined_vals xs = [b] \<Longrightarrow> median_py xs = Val b"
  by (simp add: median_py_def)

lemma idxmax_from_append:
  "idxmax_from acc (xs @ ys) = idxmax_from (idxmax_from acc xs) ys"
  by (induction acc xs rule: idxmax_from.induct) simp_all

text \<open>
  Claim C4. The Odds Converter returns the formula's value on a price that parses to a
  number \<open>p\<close>, and NaN (no exception) on every other input. A NaN among the values of
  a group does not change the group's median; an edge computed from it is NaN; NaN fails
  every threshold comparison; and a NaN entry does not change what \<open>idxmax\<close> selects.
\<close>

theorem american_to_prob_formula:
  "american_to_prob float_str c =
     (case float_py float_str c of
        Inl e \<Rightarrow> NaN
      | Inr NaN \<Rightarrow> NaN
      | Inr (Val p) \<Rightarrow> Val (if p < 0 then (- p) / (- p + 100) else 100 / (p + 100)))
   \<and> median_py (xs @ NaN # ys) = median_py (xs @ ys)
   \<and> mul_num (sub_num f NaN) (Val 100) = NaN
   \<and> \<not> ge_num NaN t
   \<and> idxmax_py (zs @ (i, NaN) # ws) = idxmax_py (zs @ ws)"
proof (intro conjI)
  show "american_to_prob float_str c =
     (case float_py float_str c of
        Inl e \<Rightarrow> NaN
      | Inr NaN \<Rightarrow> NaN
      | Inr (Val p) \<Rightarrow> Val (if p < 0 then (- p) / (- p + 100) else 100 / (p + 100)))"
    using american_to_prob_number [of float_str c] american_to_prob_nan [of float_str c]
      american_to_prob_raise [of float_str c]
    by (simp split: sum.split pyfloat.split)
  show "median_py (xs @ NaN # ys) = median_py (xs @ ys)"
    by (rule median_py_cong) (simp add: defined_vals_append)
  show "mul_num (sub_num f NaN) (Val 100) = NaN"
    by (cases f) simp_all
  show "\<not> ge_num NaN t"
    by simp
  show "idxmax_py (zs @ (i, NaN) # ws) = idxmax_py (zs @ ws)"
    by (simp add: idxmax_py_def idxmax_from_append)
qed

section \<open>Consensus of a single offer\<close>

lemma fair_group_rows:
  "map snd (filter (\<lambda>(r, b). gcols r = k)
       (zip xs (map (\<lambda>r. american_to_prob float_str (price r)) xs)))
   = map book_prob (filter (\<lambda>r. gcols r = k)
       (map (\<lambda>r. offer.extend r
          (row.fields (american_to_prob float_str (price r)) (g r) (h r) (c r))) xs))"
  by (induction xs) (simp_all add: gcols_def offer.defs row.defs)

lemma fair_annotate:
  "fair float_str df k
   = median_py (map book_prob (filter (\<lambda>r. gcols r = k) (annotate float_str df)))"
  unfolding fair_def book_prob_col_def annotate_def Let_def
  by (rule arg_cong [where f = median_py]) (rule fair_group_rows)

lemma annotate_nth:
  assumes "i < length df"
  shows "gcols (annotate float_str df ! i) = gcols (df ! i)"
    and "fair_prob (annotate float_str df ! i) = fair float_str df (gcols (df ! i))"
    and "ev_pct (annotate float_str df ! i)
         = mul_num (sub_num (fair_prob (annotate float_str df ! i))
                            (book_prob (annotate float_str df ! i))) (Val 100)"
  using assms by (simp_all add: annotate_def Let_def gcols_def offer.defs row.defs)

lemma length_annotate: "length (annotate float_str df) = length df"
  by (simp add: annotate_def)

text \<open>
  Claim C9. When the rows of a proposition key hold exactly one offer with a defined
  \<open>book_prob\<close>, the \<open>fair_prob\<close> annotated onto that offer is its own \<open>book_prob\<close> and
  its \<open>ev_pct\<close> is 0.
\<close>

theorem single_offer_zero_edge:
  assumes "i < length df"
    and "filter (\<lambda>r. gcols r = gcols (annotate float_str df ! i) \<and> book_prob r \<noteq> NaN)
           (annotate float_str df) = [annotate float_str df ! i]"
  shows "fair_prob (annotate float_str df ! i) = book_prob (annotate float_str df ! i)
       \<and> ev_pct (annotate float_str df ! i) = Val 0"
proof -
  define rows where "rows = annotate float_str df"
  define k where "k = gcols (rows ! i)"
  have one: "filter (\<lambda>r. gcols r = k \<and> book_prob r \<noteq> NaN) rows = [rows ! i]"
    using assms(2) by (simp add: rows_def k_def)
  then have "rows ! i \<in> set (filter (\<lambda>r. gcols r = k \<and> book_prob r \<noteq> NaN) rows)"
    by simp
  then have "book_prob (rows ! i) \<noteq> NaN" by simp
  then obtain b where b: "book_prob (rows ! i) = Val b"
    by (cases "book_prob (rows ! i)") simp_all
  have "defined_vals (map book_prob (filter (\<lambda>r. gcols r = k) rows))
      = defined_vals (map book_prob
          (filter (\<lambda>r. book_prob r \<noteq> NaN) (filter (\<lambda>r. gcols r = k) rows)))"
    by (simp only: defined_vals_filter)
  also have "filter (\<lambda>r. book_prob r \<noteq> NaN) (filter (\<lambda>r. gcols r = k) rows) = [rows ! i]"
    using one by (simp add: conj_commute)
  finally have "defined_vals (map book_prob (filter (\<lambda>r. gcols r = k) rows)) = [b]"
    using b by simp
  then have "median_py (map book_prob (filter (\<lambda>r. gcols r = k) rows)) = Val b"
    by (rule median_py_single)
  then have "fair float_str df k = Val b"
    by (simp add: fair_annotate rows_def)
  moreover have "k = gcols (df ! i)"
    using annotate_nth(1) [OF assms(1)] by (simp add: k_def rows_def)
  ultimately have f: "fair_prob (rows ! i) = Val b"
    using annotate_nth(2) [OF assms(1)] by (simp add: rows_def)
  have "ev_pct (rows ! i) = Val 0"
    using annotate_nth(3) [OF assms(1), of float_str] f b by (simp add: rows_def)
  with f b show ?thesis by (simp add: rows_def)
qed

text \<open>Claim C9 on the first row of \<open>null_team_input\<close>, the only offer of its key.\<close>

theorem single_offer_zero_edge_witness:
  "0 < length null_team_input
   \<and> filter (\<lambda>r. gcols r = gcols (annotate reject_text null_team_input ! 0) \<and> book_prob r \<noteq> NaN)
        (annotate reject_text null_team_input) = [annotate reject_text null_team_input ! 0]
   \<and> fair_prob (annotate reject_text null_team_input ! 0) = Val (11 / 21)
   \<and> ev_pct (annotate reject_text null_team_input ! 0) = Val 0"
proof -
  have l: "0 < length null_team_input" by (simp add: null_team_input_def)
  have f: "filter (\<lambda>r. gcols r = gcols (annotate reject_text null_team_input ! 0) \<and> book_prob r \<noteq> NaN)
        (annotate reject_text null_team_input) = [annotate reject_text null_team_input ! 0]"
    by (simp add: run_simps null_team_input_def)
  have b: "book_prob (annotate reject_text null_team_input ! 0) = Val (11 / 21)"
    by (simp add: annotate_def null_team_input_def sample_offer_def Let_def offer.defs row.defs
        american_to_prob_def american_to_prob_try_def float_py_def)
  from single_offer_zero_edge [OF l f] l f b show ?thesis by simp
qed

section \<open>The singles output\<close>

lemma desc_ge_total: "desc_ge a b \<or> desc_ge b a"
  by (cases a; cases b) auto

lemma desc_ge_trans: "desc_ge a b \<Longrightarrow> desc_ge b c \<Longrightarrow> desc_ge a c"
  by (cases a; cases b; cases c) auto

lemma set_insert_desc: "set (insert_desc r xs) = insert r (set xs)"
  by (induction xs) auto

lemma length_insert_desc: "length (insert_desc r xs) = Suc (length xs)"
  by (induction xs) auto

lemma sorted_insert_desc:
  "sorted_wrt (\<lambda>a b. desc_ge (ev_pct a) (ev_pct b)) xs \<Longrightarrow>
   sorted_wrt (\<lambda>a b. desc_ge (ev_pct a) (ev_pct b)) (insert_desc r xs)"
proof (induction xs)
  case Nil
  then show ?case by simp
next
  case (Cons s ss)
  show ?case
  proof (cases "desc_ge (ev_pct s) (ev_pct r)")
    case True
    with Cons show ?thesis by (auto simp: set_insert_desc)
  next
    case False
    then have "desc_ge (ev_pct r) (ev_pct s)" using desc_ge_total by blast
    with False Cons.prems show ?thesis by (auto intro: desc_ge_trans)
  qed
qed

lemma set_fold_insert_desc: "set (fold insert_desc xs acc) = set xs \<union> set acc"
  by (induction xs arbitrary: acc) (auto simp: set_insert_desc)

lemma length_fold_insert_desc: "length (fold insert_desc xs acc) = length xs + length acc"
  by (induction xs arbitrary: acc) (auto simp: length_insert_desc)

lemma sorted_fold_insert_desc:
  "sorted_wrt (\<lambda>a b. desc_ge (ev_pct a) (ev_pct b)) acc \<Longrightarrow>
   sorted_wrt (\<lambda>a b. desc_ge (ev_pct a) (ev_pct b)) (fold insert_desc xs acc)"
  by (induction xs arbitrary: acc) (auto simp: sorted_insert_desc)

lemma set_sort_values_desc: "set (sort_values_desc df) = set df"
  by (simp add: sort_values_desc_def set_fold_insert_desc)

lemma length_sort_values_desc: "length (sort_values_desc df) = length df"
  by (simp add: sort_values_desc_def length_fold_insert_desc)

lemma sorted_sort_values_desc:
  "sorted_wrt (\<lambda>a b. desc_ge (ev_pct a) (ev_pct b)) (sort_values_desc df)"
  by (simp add: sort_values_desc_def sorted_fold_insert_desc)

lemma set_singles_py:
  "set (singles_py best) \<subseteq> {r \<in> set best. in_band_col r \<and> ge_num (ev_pct r) (Val 2)}"
  unfolding singles_py_def
  using set_take_subset [of 6 "sort_values_desc (filter (\<lambda>r. in_band_col r \<and> ge_num (ev_pct r) (Val 2)) best)"]
  by (auto simp: set_sort_values_desc)

lemma sorted_singles_py:
  "sorted_wrt (\<lambda>a b. desc_ge (ev_pct a) (ev_pct b)) (singles_py best)"
  unfolding singles_py_def by (intro sorted_wrt_take sorted_sort_values_desc)

lemma ge_num_Val: "ge_num x (Val t) \<Longrightarrow> \<exists>e. x = Val e \<and> t \<le> e"
  by (cases x) auto

lemma in_band_bounds:
  "in_band float_str c \<Longrightarrow> \<exists>p. float_py float_str c = Inr (Val p) \<and> - 115 \<le> p \<and> p \<le> 200"
  unfolding in_band_def
  by (cases "float_py float_str c"; simp) (metis ge_num.elims(2) le_num.simps(1) pyfloat.inject)

lemma loc_subset: "loc df idx = Inr out \<Longrightarrow> set out \<subseteq> set df"
  unfolding loc_def
  by (auto simp: list_all_iff split: if_splits option.splits)

lemma best_py_subset: "best_py df = Inr best \<Longrightarrow> set best \<subseteq> set df"
  unfolding best_py_def by (rule loc_subset)

lemma annotate_in_band:
  "r \<in> set (annotate float_str df) \<Longrightarrow> in_band_col r = in_band float_str (price r)"
  by (auto simp: annotate_def Let_def offer.defs row.defs)

text \<open>
  Claim C5, amended. Whenever the best offers are selected, every row of the singles
  output has a price that parses to a number in [-115, 200] and an \<open>ev_pct\<close> of at
  least 2; the output has at most 6 rows and is in descending order of \<open>ev_pct\<close>, equal
  values allowed; and when no row qualifies the output is the empty table.
\<close>

theorem singles_filtered_sorted:
  assumes "best_py (annotate float_str (dropna_required df0)) = Inr best"
  shows "list_all (\<lambda>r. (\<exists>p. float_py float_str (price r) = Inr (Val p) \<and> - 115 \<le> p \<and> p \<le> 200)
                    \<and> ge_num (ev_pct r) (Val 2)) (singles_py best)
       \<and> length (singles_py best) \<le> 6
       \<and> sorted_wrt (\<lambda>a b. ge_num (ev_pct a) (ev_pct b)) (singles_py best)
       \<and> (filter (\<lambda>r. in_band_col r \<and> ge_num (ev_pct r) (Val 2)) best = []
            \<longrightarrow> singles_py best = [])"
proof (intro conjI)
  have mem: "in_band_col r \<and> ge_num (ev_pct r) (Val 2) \<and> r \<in> set (annotate float_str (dropna_required df0))"
    if "r \<in> set (singles_py best)" for r
    using that set_singles_py [of best] best_py_subset [OF assms] by auto
  have ok: "(\<exists>p. float_py float_str (price r) = Inr (Val p) \<and> - 115 \<le> p \<and> p \<le> 200)
      \<and> ge_num (ev_pct r) (Val 2)"
    if "r \<in> set (singles_py best)" for r
  proof -
    from mem [OF that] have "in_band float_str (price r)" and "ge_num (ev_pct r) (Val 2)"
      using annotate_in_band by auto
    then show ?thesis using in_band_bounds by blast
  qed
  then show "list_all (\<lambda>r. (\<exists>p. float_py float_str (price r) = Inr (Val p) \<and> - 115 \<le> p \<and> p \<le> 200)
                    \<and> ge_num (ev_pct r) (Val 2)) (singles_py best)"
    by (simp add: list_all_iff)
  show "length (singles_py best) \<le> 6"
    by (simp add: singles_py_def)
  have "ge_num (ev_pct a) (ev_pct b)"
    if "a \<in> set (singles_py best)" "b \<in> set (singles_py best)"
       "desc_ge (ev_pct a) (ev_pct b)" for a b
  proof -
    from ok [OF that(1)] obtain x where "ev_pct a = Val x" using ge_num_Val by blast
    moreover from ok [OF that(2)] obtain y where "ev_pct b = Val y" using ge_num_Val by blast
    ultimately show ?thesis using that(3) by simp
  qed
  then show "sorted_wrt (\<lambda>a b. ge_num (ev_pct a) (ev_pct b)) (singles_py best)"
    using sorted_singles_py [of best] by (rule sorted_wrt_mono_rel)
  show "filter (\<lambda>r. in_band_col r \<and> ge_num (ev_pct r) (Val 2)) best = []
            \<longrightarrow> singles_py best = []"
    by (simp add: singles_py_def sort_values_desc_def)
qed

lemma tie_input_best:
  "\<exists>best. best_py (annotate reject_text (dropna_required tie_input)) = Inr best
     \<and> map ev_pct (singles_py best) = [Val 5, Val 5]"
  by (simp add: run_simps tie_input_def)

lemma missing_price_best:
  "best_py (annotate reject_text (dropna_required missing_price_input)) = Inr []"
  by (simp add: run_simps missing_price_input_def)

text \<open>
  Claim C5 (amended) on \<open>tie_input\<close>, where two rows qualify, and on
  \<open>missing_price_input\<close>, where none does.
\<close>

theorem singles_filtered_sorted_witness:
  "(\<exists>best. best_py (annotate reject_text (dropna_required tie_input)) = Inr best
     \<and> length (singles_py best) = 2
     \<and> list_all (\<lambda>r. (\<exists>p. float_py reject_text (price r) = Inr (Val p) \<and> - 115 \<le> p \<and> p \<le> 200)
                    \<and> ge_num (ev_pct r) (Val 2)) (singles_py best)
     \<and> sorted_wrt (\<lambda>a b. ge_num (ev_pct a) (ev_pct b)) (singles_py best))
   \<and> best_py (annotate reject_text (dropna_required missing_price_input)) = Inr []
   \<and> filter (\<lambda>r. in_band_col r \<and> ge_num (ev_pct r) (Val 2)) ([] :: row list) = []
   \<and> singles_py ([] :: row list) = []"
proof -
  obtain best where b: "best_py (annotate reject_text (dropna_required tie_input)) = Inr best"
    and e: "map ev_pct (singles_py best) = [Val 5, Val 5]"
    using tie_input_best by (elim exE conjE)
  from e have "length (map ev_pct (singles_py best)) = 2" by simp
  then have l: "length (singles_py best) = 2" by simp
  note t = singles_filtered_sorted [OF b]
  have first: "\<exists>best. best_py (annotate reject_text (dropna_required tie_input)) = Inr best
     \<and> length (singles_py best) = 2
     \<and> list_all (\<lambda>r. (\<exists>p. float_py reject_text (price r) = Inr (Val p) \<and> - 115 \<le> p \<and> p \<le> 200)
                    \<and> ge_num (ev_pct r) (Val 2)) (singles_py best)
     \<and> sorted_wrt (\<lambda>a b. ge_num (ev_pct a) (ev_pct b)) (singles_py best)"
    using b l t [THEN conjunct1] t [THEN conjunct2, THEN conjunct2, THEN conjunct1]
    by (intro exI [of _ best] conjI)
  note u = singles_filtered_sorted [OF missing_price_best]
  have f: "filter (\<lambda>r. in_band_col r \<and> ge_num (ev_pct r) (Val 2)) ([] :: row list) = []"
    by simp
  from u [THEN conjunct2, THEN conjunct2, THEN conjunct2] f
  have "singles_py ([] :: row list) = []" by (rule mp)
  with first missing_price_best f show ?thesis by (intro conjI)
qed

text \<open>
  Claim C5 as stated fails on \<open>tie_input\<close>: both propositions have a best offer of
  edge 5, both are singles, and the output is not strictly descending.
\<close>

theorem singles_tie_not_strict:
  "\<exists>best. best_py (annotate reject_text (dropna_required tie_input)) = Inr best
     \<and> map ev_pct (singles_py best) = [Val 5, Val 5]
     \<and> \<not> sorted_wrt (\<lambda>a b. lt_num (ev_pct b) (ev_pct a)) (singles_py best)"
proof -
  obtain best where b: "best_py (annotate reject_text (dropna_required tie_input)) = Inr best"
    and e: "map ev_pct (singles_py best) = [Val 5, Val 5]"
    using tie_input_best by (elim exE conjE)
  have "sorted_wrt (\<lambda>a b. lt_num (ev_pct b) (ev_pct a)) (singles_py best)
      = sorted_wrt (\<lambda>x y. lt_num y x) (map ev_pct (singles_py best))"
    by (simp add: sorted_wrt_map)
  also have "\<dots> = False" unfolding e by simp
  finally show ?thesis using b e by (intro exI [of _ best]) simp
qed

section \<open>The Parlay Builder is the first-fit scan\<close>

lemma first_fit_zero: "first_fit rs 0 used = []"
  by (cases rs) simp_all

lemma build_parlay_loop_first_fit:
  "int (length chosen) < n \<Longrightarrow>
   build_parlay_loop rs n chosen seen = chosen @ first_fit rs (nat n - length chosen) seen"
proof (induction rs arbitrary: chosen seen)
  case Nil
  then show ?case by simp
next
  case (Cons r rs)
  from Cons.prems have pos: "nat n - length chosen \<noteq> 0" by linarith
  show ?case
  proof (cases "game_key r \<in> seen")
    case True
    with Cons pos show ?thesis by simp
  next
    case False
    show ?thesis
    proof (cases "int (length (chosen @ [r])) = n")
      case True
      then have "nat n - length chosen - 1 = 0" by simp
      with True False pos show ?thesis by (simp add: first_fit_zero)
    next
      case stop: False
      with Cons.prems have lt: "int (length (chosen @ [r])) < n" by simp
      have "nat n - length (chosen @ [r]) = nat n - length chosen - 1" by simp
      with Cons.IH [OF lt] False stop pos show ?thesis by simp
    qed
  qed
qed

lemma first_fit_keys_fresh: "r \<in> set (first_fit rs n used) \<Longrightarrow> game_key r \<notin> used"
  by (induction rs n used rule: first_fit.induct) (auto split: if_splits)

lemma distinct_first_fit: "distinct (map game_key (first_fit rs n used))"
  by (induction rs n used rule: first_fit.induct) (auto dest: first_fit_keys_fresh)

lemma length_first_fit: "length (first_fit rs n used) \<le> n"
  by (induction rs n used rule: first_fit.induct) auto

lemma subseq_first_fit: "subseq (first_fit rs n used) rs"
  by (induction rs n used rule: first_fit.induct) auto

lemma first_fit_exhausts:
  "length (first_fit rs n used) < n \<Longrightarrow>
   game_key ` set rs \<subseteq> used \<union> game_key ` set (first_fit rs n used)"
proof (induction rs n used rule: first_fit.induct)
  case (1 n used)
  then show ?case by simp
next
  case (2 r rs n used)
  have pos: "n \<noteq> 0" using "2.prems" by (cases "n = 0") simp_all
  show ?case
  proof (cases "game_key r \<in> used")
    case True
    then have step: "first_fit (r # rs) n used = first_fit rs n used"
      using pos by simp
    from "2.prems" have "length (first_fit rs n used) < n"
      unfolding step .
    from "2.IH"(1) [OF pos True this] True show ?thesis
      unfolding step by auto
  next
    case False
    then have step: "first_fit (r # rs) n used
        = r # first_fit rs (n - 1) (insert (game_key r) used)"
      using pos by simp
    from "2.prems" have "length (first_fit rs (n - 1) (insert (game_key r) used)) < n - 1"
      unfolding step using pos by simp
    from "2.IH"(2) [OF pos False this] show ?thesis
      unfolding step by auto
  qed
qed

text \<open>
  Claim C6, amended. For every candidate pool and every target leg count \<open>n \<ge> 1\<close>,
  \<open>build_parlay\<close> returns the legs of the first-fit scan; no two legs share a game key,
  the legs are a subsequence of the pool, there are at most \<open>n\<close> of them, and when there
  are fewer than \<open>n\<close> every game key of the pool is the key of a leg (the pool was
  exhausted).
\<close>

theorem build_parlay_first_fit:
  assumes "1 \<le> n"
  shows "build_parlay pool n = first_fit pool (nat n) {}
       \<and> distinct (map game_key (build_parlay pool n))
       \<and> subseq (build_parlay pool n) pool
       \<and> int (length (build_parlay pool n)) \<le> n
       \<and> (int (length (build_parlay pool n)) < n
            \<longrightarrow> game_key ` set pool \<subseteq> game_key ` set (build_parlay pool n))"
proof -
  have eq: "build_parlay pool n = first_fit pool (nat n) {}"
    using assms build_parlay_loop_first_fit [of "[]" n pool "{}"]
    by (simp add: build_parlay_def)
  have len: "int (length (first_fit pool (nat n) {})) \<le> n"
    using length_first_fit [of pool "nat n" "{}"] assms by linarith
  have ex: "game_key ` set pool \<subseteq> game_key ` set (first_fit pool (nat n) {})"
    if "int (length (first_fit pool (nat n) {})) < n"
  proof -
    from that have "length (first_fit pool (nat n) {}) < nat n" by linarith
    from first_fit_exhausts [OF this] show ?thesis by simp
  qed
  show ?thesis
    unfolding eq using len ex
    by (simp add: distinct_first_fit subseq_first_fit)
qed

text \<open>
  Claim C6 (amended) on a pool of four rows with the target 2, and on a pool of two
  games with the target 3, which the scan exhausts.
\<close>

theorem build_parlay_first_fit_witness:
  "(1::int) \<le> 2
   \<and> map game_key (build_parlay
        [sample_leg ''g1'' (1 / 2) (3 / 5), sample_leg ''g1'' (2 / 5) (1 / 2),
         sample_leg ''g2'' (1 / 2) (11 / 20), sample_leg ''g3'' (1 / 2) (11 / 20)] 2)
       = [''g1'', ''g2'']
   \<and> distinct (map game_key (build_parlay
        [sample_leg ''g1'' (1 / 2) (3 / 5), sample_leg ''g1'' (2 / 5) (1 / 2),
         sample_leg ''g2'' (1 / 2) (11 / 20), sample_leg ''g3'' (1 / 2) (11 / 20)] 2))
   \<and> (1::int) \<le> 3
   \<and> map game_key (build_parlay
        [sample_leg ''g1'' (1 / 2) (3 / 5), sample_leg ''g1'' (2 / 5) (1 / 2),
         sample_leg ''g2'' (1 / 2) (11 / 20)] 3)
       = [''g1'', ''g2'']
   \<and> int (length (build_parlay
        [sample_leg ''g1'' (1 / 2) (3 / 5), sample_leg ''g1'' (2 / 5) (1 / 2),
         sample_leg ''g2'' (1 / 2) (11 / 20)] 3)) < 3
   \<and> game_key ` set [sample_leg ''g1'' (1 / 2) (3 / 5), sample_leg ''g1'' (2 / 5) (1 / 2),
         sample_leg ''g2'' (1 / 2) (11 / 20)]
       \<subseteq> game_key ` set (build_parlay
        [sample_leg ''g1'' (1 / 2) (3 / 5), sample_leg ''g1'' (2 / 5) (1 / 2),
         sample_leg ''g2'' (1 / 2) (11 / 20)] 3)"
proof -
  define pool4 where "pool4 =
    [sample_leg ''g1'' (1 / 2) (3 / 5), sample_leg ''g1'' (2 / 5) (1 / 2),
     sample_leg ''g2'' (1 / 2) (11 / 20), sample_leg ''g3'' (1 / 2) (11 / 20)]"
  define pool3 where "pool3 =
    [sample_leg ''g1'' (1 / 2) (3 / 5), sample_leg ''g1'' (2 / 5) (1 / 2),
     sample_leg ''g2'' (1 / 2) (11 / 20)]"
  have n2: "(1::int) \<le> 2" and n3: "(1::int) \<le> 3" by simp_all
  note t4 = build_parlay_first_fit [OF n2, of pool4]
  note t3 = build_parlay_first_fit [OF n3, of pool3]
  have k4: "map game_key (build_parlay pool4 2) = [''g1'', ''g2'']"
    using t4 [THEN conjunct1] by (simp add: pool4_def sample_leg_def sample_offer_def offer.defs row.defs pool_row.defs)
  have d4: "distinct (map game_key (build_parlay pool4 2))"
    by (rule t4 [THEN conjunct2, THEN conjunct1])
  have k3: "map game_key (build_parlay pool3 3) = [''g1'', ''g2'']"
    using t3 [THEN conjunct1] by (simp add: pool3_def sample_leg_def sample_offer_def offer.defs row.defs pool_row.defs)
  then have "length (map game_key (build_parlay pool3 3)) = 2" by simp
  then have l3: "int (length (build_parlay pool3 3)) < 3" by simp
  from t3 [THEN conjunct2, THEN conjunct2, THEN conjunct2, THEN conjunct2] l3
  have s3: "game_key ` set pool3 \<subseteq> game_key ` set (build_parlay pool3 3)"
    by (rule mp)
  show ?thesis
    using k4 d4 k3 l3 s3 unfolding pool4_def pool3_def by simp
qed

text \<open>
  Claim C6 as stated fails at the target 0: the loop tests the count only after it has
  appended a leg, so it never stops early and returns two legs.
\<close>

theorem build_parlay_zero_target:
  "map game_key (build_parlay
        [sample_leg ''g1'' (1 / 2) (3 / 5), sample_leg ''g2'' (1 / 2) (11 / 20)] 0)
     = [''g1'', ''g2'']
   \<and> \<not> int (length (build_parlay
        [sample_leg ''g1'' (1 / 2) (3 / 5), sample_leg ''g2'' (1 / 2) (11 / 20)] 0)) \<le> 0"
  by (simp add: build_parlay_def sample_leg_def sample_offer_def offer.defs row.defs pool_row.defs)

section \<open>Combined probability and price\<close>

text \<open>
  The product of doubles between 0 and 1 stays between 0 and 1, so no product
  overflows; a product may underflow to 0.
\<close>

lemma foldl_fmul_unit:
  assumes "list_all (\<lambda>b. rnd b = b \<and> 0 \<le> b \<and> b \<le> 1) bs"
    and "0 \<le> a" and "a \<le> 1" and "rnd a = a"
  shows "foldl fmul (Fin a) (map Fin bs) = Fin (foldl (\<lambda>a b. rnd (a * b)) a bs)
       \<and> 0 \<le> foldl (\<lambda>a b. rnd (a * b)) a bs
       \<and> foldl (\<lambda>a b. rnd (a * b)) a bs \<le> 1
       \<and> rnd (foldl (\<lambda>a b. rnd (a * b)) a bs) = foldl (\<lambda>a b. rnd (a * b)) a bs"
  using assms
proof (induction bs arbitrary: a)
  case Nil
  then show ?case by simp
next
  case (Cons b bs)
  from Cons.prems(1) have b: "0 \<le> b" "b \<le> 1" and rest: "list_all (\<lambda>b. rnd b = b \<and> 0 \<le> b \<and> b \<le> 1) bs"
    by simp_all
  have 0: "0 \<le> a * b" using Cons.prems(2) b(1) by simp
  have 1: "a * b \<le> 1" using Cons.prems(2,3) b by (simp add: mult_le_one)
  note u = fl_unit [OF 0 1]
  have "foldl fmul (Fin a) (map Fin (b # bs)) = foldl fmul (Fin (rnd (a * b))) (map Fin bs)"
    by (simp add: u(1))
  moreover note Cons.IH [OF rest u(2,3) rnd_idem]
  ultimately show ?case by simp
qed

lemma float64_of_unit:
  assumes "list_all (\<lambda>b. rnd b = b \<and> 0 \<le> b \<and> b \<le> 1) bs"
  shows "map float64_of (map Val bs) = map Fin bs"
  using assms
proof (induction bs)
  case Nil
  then show ?case by simp
next
  case (Cons b bs)
  from Cons.prems have b: "rnd b = b" "0 \<le> b" "b \<le> 1" by simp_all
  from fl_unit(1) [OF b(2,3)] b(1) have "fl b = Fin b" by simp
  with Cons show ?case by simp
qed

lemma prod_skipna_Fin: "prod_skipna (map Fin bs) = foldl fmul (Fin 1) (map Fin bs)"
proof -
  have "map (\<lambda>x. if x = NaN64 then Fin 1 else x) (map Fin bs) = map Fin bs"
    by (induction bs) simp_all
  then show ?thesis unfolding prod_skipna_def by (rule arg_cong)
qed

text \<open>A leg whose \<open>book_prob\<close> is NaN is skipped by the product.\<close>

lemma prod_skipna_NaN: "prod_skipna (xs @ NaN64 # ys) = prod_skipna (xs @ Fin 1 # ys)"
  by (simp add: prod_skipna_def)

lemma prod_seq_unit:
  assumes "list_all (\<lambda>b. rnd b = b \<and> 0 \<le> b \<and> b \<le> 1) bs"
  shows "rnd (prod_seq bs) = prod_seq bs" and "0 \<le> prod_seq bs" and "prod_seq bs \<le> 1"
  using foldl_fmul_unit [OF assms, of 1] by (simp_all add: prod_seq_def)

lemma parlay_metrics_unit:
  fixes legs :: "'a row_scheme list"
  assumes "legs \<noteq> []" and "map book_prob legs = map Val bs"
    and "list_all (\<lambda>b. rnd b = b \<and> 0 \<le> b \<and> b \<le> 1) bs"
  shows "parlay_metrics legs =
           (case prob_to_american (Fin (prod_seq bs)) of
              Inl e \<Rightarrow> Inl e
            | Inr us \<Rightarrow> Inr (Some (Fin (prod_seq bs)), us))"
proof -
  have "map (\<lambda>r. float64_of (book_prob r)) legs = map float64_of (map book_prob legs)"
    by simp
  also have "\<dots> = map Fin bs" unfolding assms(2) using assms(3) by (rule float64_of_unit)
  finally have "prod_skipna (map (\<lambda>r. float64_of (book_prob r)) legs) = Fin (prod_seq bs)"
    using foldl_fmul_unit [OF assms(3), of 1] by (simp add: prod_skipna_Fin prod_seq_def)
  then show ?thesis using assms(1) by (simp add: parlay_metrics_def Let_def)
qed

lemma parlay_metrics_cases:
  fixes legs :: "'a row_scheme list"
  assumes "legs \<noteq> []" and "map book_prob legs = map Val bs"
    and "list_all (\<lambda>b. rnd b = b \<and> 0 \<le> b \<and> b \<le> 1) bs"
  shows "prod_seq bs \<le> 0 \<or> 1 \<le> prod_seq bs \<Longrightarrow>
           parlay_metrics legs = Inr (Some (Fin (prod_seq bs)), None)"
    and "0 < prod_seq bs \<Longrightarrow> prod_seq bs < 1 \<Longrightarrow> \<not> price_overflows (prod_seq bs) \<Longrightarrow>
           parlay_metrics legs = Inr (Some (Fin (prod_seq bs)), Some (price_of (prod_seq bs)))"
    and "0 < prod_seq bs \<Longrightarrow> prod_seq bs < 1 \<Longrightarrow> price_overflows (prod_seq bs) \<Longrightarrow>
           parlay_metrics legs = Inl OverflowError"
  using prob_to_american_cases [OF prod_seq_unit(1) [OF assms(3)]]
  by (simp_all add: parlay_metrics_unit [OF assms])

text \<open>
  The rounded product is the product of the values up to \<open>2 ^ - 53\<close> for each
  multiplication.
\<close>

lemma foldl_rnd_close:
  assumes "list_all (\<lambda>b. rnd b = b \<and> 0 \<le> b \<and> b \<le> 1) bs"
    and "0 \<le> a" and "a \<le> 1" and "rnd a = a" and "0 \<le> c" and "c \<le> 1"
  shows "\<bar>foldl (\<lambda>a b. rnd (a * b)) a bs - c * prod_list bs\<bar>
           \<le> \<bar>a - c\<bar> + real (length bs) / 2 ^ 53"
  using assms
proof (induction bs arbitrary: a c)
  case Nil
  then show ?case by simp
next
  case (Cons b bs)
  from Cons.prems(1) have b: "0 \<le> b" "b \<le> 1" and rest: "list_all (\<lambda>b. rnd b = b \<and> 0 \<le> b \<and> b \<le> 1) bs"
    by simp_all
  have 0: "0 \<le> a * b" using Cons.prems(2) b(1) by simp
  have 1: "a * b \<le> 1" using Cons.prems(2,3) b by (simp add: mult_le_one)
  note u = fl_unit(2,3) [OF 0 1]
  have c0: "0 \<le> c * b" using Cons.prems(5) b(1) by simp
  have c1: "c * b \<le> 1" using Cons.prems(5,6) b by (simp add: mult_le_one)
  have "\<bar>a * b - c * b\<bar> = \<bar>a - c\<bar> * b" using b(1) by (simp add: abs_mult flip: left_diff_distrib)
  also have "\<dots> \<le> \<bar>a - c\<bar> * 1" using b(2) by (intro mult_left_mono) simp_all
  finally have d: "\<bar>a * b - c * b\<bar> \<le> \<bar>a - c\<bar>" by simp
  have "\<bar>rnd (a * b) - c * b\<bar> \<le> \<bar>rnd (a * b) - a * b\<bar> + \<bar>a * b - c * b\<bar>"
    using abs_triangle_ineq [of "rnd (a * b) - a * b" "a * b - c * b"] by simp
  with d rnd_unit_err [OF 0 1]
  have e: "\<bar>rnd (a * b) - c * b\<bar> \<le> \<bar>a - c\<bar> + 1 / 2 ^ 53" by linarith
  have "\<bar>foldl (\<lambda>a b. rnd (a * b)) (rnd (a * b)) bs - c * b * prod_list bs\<bar>
          \<le> \<bar>rnd (a * b) - c * b\<bar> + real (length bs) / 2 ^ 53"
    by (rule Cons.IH [OF rest u rnd_idem c0 c1])
  with e have "\<bar>foldl (\<lambda>a b. rnd (a * b)) (rnd (a * b)) bs - c * b * prod_list bs\<bar>
          \<le> \<bar>a - c\<bar> + (1 / 2 ^ 53 + real (length bs) / 2 ^ 53)"
    by linarith
  moreover have "real (length (b # bs)) / 2 ^ 53 = 1 / 2 ^ 53 + real (length bs) / 2 ^ 53"
    by (simp add: add_divide_distrib)
  moreover have "foldl (\<lambda>a b. rnd (a * b)) a (b # bs) = foldl (\<lambda>a b. rnd (a * b)) (rnd (a * b)) bs"
    by simp
  moreover have "c * prod_list (b # bs) = c * b * prod_list bs" by simp
  ultimately show ?case by (simp only:)
qed

lemma prod_seq_close:
  assumes "list_all (\<lambda>b. rnd b = b \<and> 0 \<le> b \<and> b \<le> 1) bs"
  shows "\<bar>prod_seq bs - prod_list bs\<bar> \<le> real (length bs) / 2 ^ 53"
  using foldl_rnd_close [OF assms, of 1 1] by (simp add: prod_seq_def)

lemma annotate_ev_defined:
  assumes "r \<in> set (annotate float_str df)" and "ev_pct r \<noteq> NaN"
  shows "book_prob r \<noteq> NaN"
proof -
  from assms(1) have "ev_pct r = mul_num (sub_num (fair_prob r) (book_prob r)) (Val 100)"
    by (auto simp: annotate_def Let_def offer.defs row.defs)
  with assms(2) show ?thesis by (cases "fair_prob r"; cases "book_prob r") auto
qed

lemma build_parlay_loop_subset:
  "set (build_parlay_loop rs n chosen seen) \<subseteq> set chosen \<union> set rs"
  by (induction rs n chosen seen rule: build_parlay_loop.induct) auto

lemma build_parlay_subset: "set (build_parlay pool n) \<subseteq> set pool"
  using build_parlay_loop_subset [of pool n "[]" "{}"] by (simp add: build_parlay_def)

lemma best_pool_py_rows:
  assumes "r \<in> set (best_pool_py str_of best)"
  shows "\<exists>r0 \<in> set best. ge_num (ev_pct r0) (Val 1) \<and> book_prob r = book_prob r0"
proof -
  from assms obtain r0 where
    r0: "r0 \<in> set (take 40 (sort_values_desc (filter (\<lambda>r. ge_num (ev_pct r) (Val 1)) best)))"
    and r: "r = row.extend r0 (pool_row.fields (str_of (game_id r0)))"
    unfolding best_pool_py_def by auto
  from r0 have "r0 \<in> set (filter (\<lambda>r. ge_num (ev_pct r) (Val 1)) best)"
    using set_take_subset set_sort_values_desc by fastforce
  moreover from r have "book_prob r = book_prob r0"
    by (simp add: row.defs pool_row.defs)
  ultimately show ?thesis by auto
qed

lemma defined_map_Val:
  "list_all (\<lambda>r. f r \<noteq> NaN) xs \<Longrightarrow> \<exists>ps. map f xs = map Val ps"
proof (induction xs)
  case Nil
  then show ?case by simp
next
  case (Cons x xs)
  then obtain ps where "map f xs = map Val ps" by auto
  moreover from Cons.prems obtain v where "f x = Val v" by (cases "f x") auto
  ultimately have "map f (x # xs) = map Val (v # ps)" by simp
  then show ?case by blast
qed

text \<open>
  Every leg of a parlay built from the candidate pool has a defined \<open>book_prob\<close>: its
  \<open>ev_pct\<close> passed the threshold 1.0.
\<close>

lemma parlay_legs_defined:
  assumes "best_py (annotate float_str (dropna_required df0)) = Inr best"
  shows "\<exists>ps. map book_prob (build_parlay (drop k (best_pool_py str_of best)) n) = map Val ps"
proof (rule defined_map_Val)
  have "book_prob r \<noteq> NaN" if "r \<in> set (build_parlay (drop k (best_pool_py str_of best)) n)" for r
  proof -
    from that have "r \<in> set (best_pool_py str_of best)"
      using build_parlay_subset set_drop_subset by fastforce
    then obtain r0 where r0: "r0 \<in> set best" "ge_num (ev_pct r0) (Val 1)"
      "book_prob r = book_prob r0"
      using best_pool_py_rows by blast
    from r0(2) have "ev_pct r0 \<noteq> NaN" by (cases "ev_pct r0") auto
    moreover from r0(1) have "r0 \<in> set (annotate float_str (dropna_required df0))"
      using best_py_subset [OF assms] by auto
    ultimately show ?thesis using annotate_ev_defined r0(3) by metis
  qed
  then show "list_all (\<lambda>r. book_prob r \<noteq> NaN)
      (build_parlay (drop k (best_pool_py str_of best)) n)"
    by (simp add: list_all_iff)
qed

text \<open>
  Claim C7, amended. For a nonempty leg set whose \<open>book_prob\<close> values are the doubles
  \<open>bs\<close> between 0 and 1 (what the Odds Converter returns), the combined probability is
  their product in double arithmetic, \<open>prod_seq bs\<close>, which is the product of the values up
  to \<open>2 ^ - 53\<close> for each leg (the \<open>fair_prob\<close> column is not read). The combined price
  is None when the combined probability \<open>p\<close> is at most 0 or at least 1. For \<open>p\<close>
  strictly between 0 and 1 it is the price of the formula in double arithmetic,
  \<open>price_of p\<close>, when the formula does not overflow at \<open>p\<close> (every \<open>p\<close> from
  \<open>2 ^ - 1017\<close> on); when it overflows (every \<open>p\<close> up to \<open>2 ^ - 1024\<close>) no price is
  produced: the conversion raises OverflowError. Every parlay the run builds from a
  candidate pool has defined \<open>book_prob\<close> values. The empty leg set gives (None, None).
\<close>

theorem parlay_metrics_product:
  fixes legs :: "'a row_scheme list"
  shows "(legs \<noteq> [] \<and> map book_prob legs = map Val bs
            \<and> list_all (\<lambda>b. rnd b = b \<and> 0 \<le> b \<and> b \<le> 1) bs \<longrightarrow>
            \<bar>prod_seq bs - prod_list bs\<bar> \<le> real (length bs) / 2 ^ 53
          \<and> (prod_seq bs \<le> 0 \<or> 1 \<le> prod_seq bs \<longrightarrow>
               parlay_metrics legs = Inr (Some (Fin (prod_seq bs)), None))
          \<and> (0 < prod_seq bs \<and> prod_seq bs < 1 \<and> \<not> price_overflows (prod_seq bs) \<longrightarrow>
               parlay_metrics legs
                 = Inr (Some (Fin (prod_seq bs)), Some (price_of (prod_seq bs))))
          \<and> (0 < prod_seq bs \<and> prod_seq bs < 1 \<and> price_overflows (prod_seq bs) \<longrightarrow>
               parlay_metrics legs = Inl OverflowError))
       \<and> (2 powi (- 1017) \<le> p \<longrightarrow> \<not> price_overflows p)
       \<and> (0 < p \<and> p \<le> 2 powi (- 1024) \<longrightarrow> price_overflows p)
       \<and> (best_py (annotate float_str (dropna_required df0)) = Inr best \<longrightarrow>
            (\<exists>qs. map book_prob (build_parlay (drop k (best_pool_py str_of best)) n) = map Val qs))
       \<and> parlay_metrics ([] :: 'a row_scheme list) = Inr (None, None)"
proof (intro conjI impI)
  assume a: "legs \<noteq> [] \<and> map book_prob legs = map Val bs
            \<and> list_all (\<lambda>b. rnd b = b \<and> 0 \<le> b \<and> b \<le> 1) bs"
  then have l: "legs \<noteq> []" "map book_prob legs = map Val bs"
    "list_all (\<lambda>b. rnd b = b \<and> 0 \<le> b \<and> b \<le> 1) bs"
    by simp_all
  note c = parlay_metrics_cases [OF l]
  show "\<bar>prod_seq bs - prod_list bs\<bar> \<le> real (length bs) / 2 ^ 53"
    using l(3) by (rule prod_seq_close)
  show "parlay_metrics legs = Inr (Some (Fin (prod_seq bs)), None)"
    if "prod_seq bs \<le> 0 \<or> 1 \<le> prod_seq bs"
    using that by (rule c(1))
  show "parlay_metrics legs = Inr (Some (Fin (prod_seq bs)), Some (price_of (prod_seq bs)))"
    if "0 < prod_seq bs \<and> prod_seq bs < 1 \<and> \<not> price_overflows (prod_seq bs)"
    using that c(2) by simp
  show "parlay_metrics legs = Inl OverflowError"
    if "0 < prod_seq bs \<and> prod_seq bs < 1 \<and> price_overflows (prod_seq bs)"
    using that c(3) by simp
next
  assume "2 powi (- 1017) \<le> p"
  then show "\<not> price_overflows p" by (rule price_overflows_normal)
next
  assume "0 < p \<and> p \<le> 2 powi (- 1024)"
  then show "price_overflows p" using price_overflows_tiny [of p] by simp
next
  assume "best_py (annotate float_str (dropna_required df0)) = Inr best"
  then show "\<exists>qs. map book_prob (build_parlay (drop k (best_pool_py str_of best)) n) = map Val qs"
    by (rule parlay_legs_defined)
next
  show "parlay_metrics ([] :: 'a row_scheme list) = Inr (None, None)"
    by (simp add: parlay_metrics_def)
qed

lemma tie_input_parlay:
  "\<exists>best. best_py (annotate reject_text (dropna_required tie_input)) = Inr best
     \<and> map game_key (build_parlay (best_pool_py str_text best) 3) = [''g1'', ''g2'']
     \<and> map book_prob (build_parlay (best_pool_py str_text best) 3) = map Val [1 / 2, 1 / 2]
     \<and> map fair_prob (build_parlay (best_pool_py str_text best) 3) = map Val [11 / 20, 11 / 20]"
  by (simp add: run_simps tie_input_def best_pool_py_def build_parlay_def str_text_def)

lemma book_prob_sample_leg: "book_prob (sample_leg g bp fp) = Val bp"
  by (simp add: sample_leg_def offer.defs row.defs pool_row.defs)

lemma prod_seq_halves: "prod_seq [1 / 2, 1 / 2] = 1 / 4"
proof -
  have "rnd (1 / 4) = 1 / 4" using rnd_fix [of "- 2" 1] by simp
  then show ?thesis by (simp add: prod_seq_def)
qed

lemma price_of_quarter: "price_of (1 / 4) = 300"
proof -
  have "rnd 4 = 4" "rnd 3 = 3" "rnd 300 = 300"
    using rnd_of_int [of 4] rnd_of_int [of 3] rnd_of_int [of 300] by simp_all
  then show ?thesis by (simp add: price_of_def)
qed

text \<open>
  Claim C7 (amended) on the 3-leg parlay of the run on \<open>tie_input\<close>: two legs of book
  probability 1/2 and fair probability 11/20; the combined probability is 1/4 and the
  combined price +300. On a single leg of probability 1 no price is produced, and on a
  single leg of probability \<open>2 ^ - 1030\<close> the conversion raises.
\<close>

theorem parlay_metrics_product_witness:
  "\<exists>best. best_py (annotate reject_text (dropna_required tie_input)) = Inr best
     \<and> build_parlay (best_pool_py str_text best) 3 \<noteq> []
     \<and> map book_prob (build_parlay (best_pool_py str_text best) 3) = map Val [1 / 2, 1 / 2]
     \<and> map fair_prob (build_parlay (best_pool_py str_text best) 3) = map Val [11 / 20, 11 / 20]
     \<and> list_all (\<lambda>b. rnd b = b \<and> 0 \<le> b \<and> b \<le> 1) [1 / 2, 1 / 2 :: real]
     \<and> prod_seq [1 / 2, 1 / 2] = 1 / 4
     \<and> \<not> price_overflows (1 / 4)
     \<and> price_of (1 / 4) = 300
     \<and> parlay_metrics (build_parlay (best_pool_py str_text best) 3)
         = Inr (Some (Fin (1 / 4)), Some 300)
     \<and> parlay_metrics [sample_leg ''g1'' 1 1] = Inr (Some (Fin 1), None)
     \<and> price_overflows (2 powi (- 1030))
     \<and> parlay_metrics [sample_leg ''g1'' (2 powi (- 1030)) (1 / 2)] = Inl OverflowError"
proof -
  from tie_input_parlay obtain best where
    b: "best_py (annotate reject_text (dropna_required tie_input)) = Inr best"
    and p: "map book_prob (build_parlay (best_pool_py str_text best) 3) = map Val [1 / 2, 1 / 2]"
    and f: "map fair_prob (build_parlay (best_pool_py str_text best) 3) = map Val [11 / 20, 11 / 20]"
    by (elim exE conjE)
  from p have ne: "build_parlay (best_pool_py str_text best) 3 \<noteq> []" by auto
  have h: "list_all (\<lambda>b. rnd b = b \<and> 0 \<le> b \<and> b \<le> 1) [1 / 2, 1 / 2 :: real]" by simp
  have q: "(2::real) powi (- 1017) \<le> 1 / 4"
    using two_powi_mono [of "- 1017" "- 2"] by simp
  note t = parlay_metrics_product [of "build_parlay (best_pool_py str_text best) 3" "[1 / 2, 1 / 2]"
      "1 / 4" reject_text tie_input best 0 str_text 3]
  from t q have n: "\<not> price_overflows (1 / 4)" by blast
  from t [THEN conjunct1] ne p h n
  have m: "parlay_metrics (build_parlay (best_pool_py str_text best) 3)
         = Inr (Some (Fin (1 / 4)), Some 300)"
    by (simp add: prod_seq_halves price_of_quarter)
  have one: "prod_seq [1] = 1" by (simp add: prod_seq_def)
  have m1: "parlay_metrics [sample_leg ''g1'' 1 1] = Inr (Some (Fin 1), None)"
    using parlay_metrics_product [of "[sample_leg ''g1'' 1 1]" "[1]", THEN conjunct1]
    by (simp add: book_prob_sample_leg one)
  define x :: real where "x = 2 powi (- 1030)"
  have r: "rnd x = x" unfolding x_def by (rule rnd_two_powi) simp
  have x0: "0 < x" by (simp add: x_def)
  have le: "x \<le> 2 powi (- 1024)" "x \<le> 2 powi 0"
    unfolding x_def by (rule two_powi_mono; simp)+
  have "(2::real) powi (- 1030) < 2 powi 0" by (rule two_powi_strict_mono) simp
  then have x1: "x < 1" by (simp add: x_def)
  have tiny: "prod_seq [x] = x" by (simp add: prod_seq_def r)
  note u = parlay_metrics_product [of "[sample_leg ''g1'' x (1 / 2)]" "[x]" x]
  from u x0 le(1) have o: "price_overflows x" by blast
  have "parlay_metrics [sample_leg ''g1'' x (1 / 2)] = Inl OverflowError"
    using u [THEN conjunct1] le x0 x1 r o
    by (simp add: book_prob_sample_leg tiny)
  then have m2: "parlay_metrics [sample_leg ''g1'' (2 powi (- 1030)) (1 / 2)] = Inl OverflowError"
    by (simp only: x_def)
  have o': "price_overflows (2 powi (- 1030))" using o by (simp only: x_def)
  show ?thesis using b ne p f h n m m1 o' m2 prod_seq_halves price_of_quarter
    by (intro exI [of _ best] conjI)
qed

text \<open>
  Claim C7 as stated fails on two legs of probability \<open>2 ^ - 520\<close>: the combined
  probability \<open>2 ^ - 1040\<close> is a double strictly between 0 and 1, its decimal odds
  overflow to infinity, and \<^verbatim>\<open>round\<close> raises OverflowError instead of giving a price.
\<close>

theorem parlay_metrics_raises:
  "prod_seq [2 powi (- 520), 2 powi (- 520)] = 2 powi (- 1040)
   \<and> (0::real) < 2 powi (- 1040) \<and> (2::real) powi (- 1040) < 1
   \<and> parlay_metrics [sample_leg ''g1'' (2 powi (- 520)) (1 / 2),
                       sample_leg ''g2'' (2 powi (- 520)) (1 / 2)] = Inl OverflowError"
proof -
  define x :: real where "x = 2 powi (- 520)"
  define y :: real where "y = 2 powi (- 1040)"
  have r: "rnd x = x" "rnd y = y"
    unfolding x_def y_def by (rule rnd_two_powi; simp)+
  have xy: "x * x = y" unfolding x_def y_def by (simp flip: power_int_add)
  have p: "prod_seq [x, x] = y" by (simp add: prod_seq_def r xy)
  have x1: "0 \<le> x" "x \<le> 1"
    using two_powi_mono [of "- 520" 0] by (simp_all add: x_def)
  have y0: "0 < y" by (simp add: y_def)
  have y1: "y \<le> 2 powi (- 1024)" unfolding y_def by (rule two_powi_mono) simp
  have "(2::real) powi (- 1040) < 2 powi 0" by (rule two_powi_strict_mono) simp
  then have lt: "y < 1" by (simp add: y_def)
  have h: "list_all (\<lambda>b. rnd b = b \<and> 0 \<le> b \<and> b \<le> 1) [x, x]"
    using x1 r(1) by simp
  have ne: "[sample_leg ''g1'' x (1 / 2), sample_leg ''g2'' x (1 / 2)] \<noteq> []" by simp
  have bp: "map book_prob [sample_leg ''g1'' x (1 / 2), sample_leg ''g2'' x (1 / 2)] = map Val [x, x]"
    by (simp add: book_prob_sample_leg)
  have "parlay_metrics [sample_leg ''g1'' x (1 / 2), sample_leg ''g2'' x (1 / 2)]
          = Inl OverflowError"
    using parlay_metrics_cases(3) [OF ne bp h] y0 lt price_overflows_tiny [OF y0 y1]
    by (simp only: p)
  with p y0 lt show ?thesis by (simp only: x_def y_def simp_thms)
qed

section \<open>What the Best-Offer Selector selects\<close>

lemma le_or_nan_simps [simp]:
  "le_or_nan m (j, NaN)" "le_or_nan m (j, Val v) = (v \<le> m)"
  by (simp_all add: le_or_nan_def)

lemma lt_or_nan_simps [simp]:
  "lt_or_nan m (j, NaN)" "lt_or_nan m (j, Val v) = (v < m)"
  by (simp_all add: lt_or_nan_def)

lemma idxmax_from_None: "idxmax_from acc xs = None \<longleftrightarrow> acc = None \<and> list_all (\<lambda>(i, x). x = NaN) xs"
  by (induction acc xs rule: idxmax_from.induct) auto

lemma idxmax_from_Some:
  "idxmax_from acc xs = Some (i, m) \<Longrightarrow>
   (acc = Some (i, m) \<and> list_all (le_or_nan m) xs)
   \<or> (\<exists>pre post. xs = pre @ (i, Val m) # post
         \<and> list_all (lt_or_nan m) pre \<and> list_all (le_or_nan m) post
         \<and> (case acc of None \<Rightarrow> True | Some (a, am) \<Rightarrow> am < m))"
proof (induction acc xs rule: idxmax_from.induct)
  case (1 acc)
  then show ?case by simp
next
  case (2 acc j xs)
  from "2.prems" have "idxmax_from acc xs = Some (i, m)" by simp
  from "2.IH" [OF this] show ?case
  proof
    assume "acc = Some (i, m) \<and> list_all (le_or_nan m) xs"
    then show ?thesis by simp
  next
    assume "\<exists>pre post. xs = pre @ (i, Val m) # post
         \<and> list_all (lt_or_nan m) pre \<and> list_all (le_or_nan m) post
         \<and> (case acc of None \<Rightarrow> True | Some (a, am) \<Rightarrow> am < m)"
    then obtain pre post where d: "xs = pre @ (i, Val m) # post"
      "list_all (lt_or_nan m) pre" "list_all (le_or_nan m) post"
      "case acc of None \<Rightarrow> True | Some (a, am) \<Rightarrow> am < m"
      by blast
    have "(j, NaN) # xs = ((j, NaN) # pre) @ (i, Val m) # post" using d(1) by simp
    moreover have "list_all (lt_or_nan m) ((j, NaN) # pre)" using d(2) by simp
    ultimately show ?thesis using d(3,4) by blast
  qed
next
  case (3 j v xs)
  from "3.prems" have "idxmax_from (Some (j, v)) xs = Some (i, m)" by simp
  from "3.IH" [OF this] show ?case
  proof
    assume a: "Some (j, v) = Some (i, m) \<and> list_all (le_or_nan m) xs"
    then have "(j, Val v) # xs = [] @ (i, Val m) # xs" by simp
    with a show ?thesis by (intro disjI2 exI [of _ "[]"] exI [of _ xs]) simp
  next
    assume "\<exists>pre post. xs = pre @ (i, Val m) # post
         \<and> list_all (lt_or_nan m) pre \<and> list_all (le_or_nan m) post
         \<and> (case Some (j, v) of None \<Rightarrow> True | Some (a, am) \<Rightarrow> am < m)"
    then obtain pre post where d: "xs = pre @ (i, Val m) # post"
      "list_all (lt_or_nan m) pre" "list_all (le_or_nan m) post" "v < m"
      by auto
    have "(j, Val v) # xs = ((j, Val v) # pre) @ (i, Val m) # post" using d(1) by simp
    moreover have "list_all (lt_or_nan m) ((j, Val v) # pre)"
      using d(2,4) by simp
    ultimately show ?thesis using d(3) by (intro disjI2 exI [of _ "(j, Val v) # pre"] exI [of _ post]) simp
  qed
next
  case (4 a am j v xs)
  show ?case
  proof (cases "am < v")
    case True
    with "4.prems" have "idxmax_from (Some (j, v)) xs = Some (i, m)" by simp
    with "4.IH" True have "(Some (j, v) = Some (i, m) \<and> list_all (le_or_nan m) xs)
       \<or> (\<exists>pre post. xs = pre @ (i, Val m) # post
         \<and> list_all (lt_or_nan m) pre \<and> list_all (le_or_nan m) post
         \<and> (case Some (j, v) of None \<Rightarrow> True | Some (a, am) \<Rightarrow> am < m))"
      by simp
    then show ?thesis
    proof
      assume a: "Some (j, v) = Some (i, m) \<and> list_all (le_or_nan m) xs"
      with True show ?thesis by (intro disjI2 exI [of _ "[]"] exI [of _ xs]) simp
    next
      assume "\<exists>pre post. xs = pre @ (i, Val m) # post
         \<and> list_all (lt_or_nan m) pre \<and> list_all (le_or_nan m) post
         \<and> (case Some (j, v) of None \<Rightarrow> True | Some (a, am) \<Rightarrow> am < m)"
      then obtain pre post where d: "xs = pre @ (i, Val m) # post"
        "list_all (lt_or_nan m) pre" "list_all (le_or_nan m) post" "v < m"
        by auto
      have "list_all (lt_or_nan m) ((j, Val v) # pre)"
        using d(2,4) by simp
      with d True show ?thesis
        by (intro disjI2 exI [of _ "(j, Val v) # pre"] exI [of _ post]) simp
    qed
  next
    case False
    with "4.prems" have "idxmax_from (Some (a, am)) xs = Some (i, m)" by simp
    with "4.IH" False have "(Some (a, am) = Some (i, m) \<and> list_all (le_or_nan m) xs)
       \<or> (\<exists>pre post. xs = pre @ (i, Val m) # post
         \<and> list_all (lt_or_nan m) pre \<and> list_all (le_or_nan m) post
         \<and> (case Some (a, am) of None \<Rightarrow> True | Some (a, am) \<Rightarrow> am < m))"
      by simp
    then show ?thesis
    proof
      assume "Some (a, am) = Some (i, m) \<and> list_all (le_or_nan m) xs"
      with False show ?thesis by simp
    next
      assume "\<exists>pre post. xs = pre @ (i, Val m) # post
         \<and> list_all (lt_or_nan m) pre \<and> list_all (le_or_nan m) post
         \<and> (case Some (a, am) of None \<Rightarrow> True | Some (a, am) \<Rightarrow> am < m)"
      then obtain pre post where d: "xs = pre @ (i, Val m) # post"
        "list_all (lt_or_nan m) pre" "list_all (le_or_nan m) post" "am < m"
        by auto
      have "list_all (lt_or_nan m) ((j, Val v) # pre)"
        using d(2,4) False by simp
      with d show ?thesis
        by (intro disjI2 exI [of _ "(j, Val v) # pre"] exI [of _ post]) simp
    qed
  qed
qed

lemma group_ev_mem:
  "(j, x) \<in> set (group_ev df k) \<longleftrightarrow> j < length df \<and> gcols (df ! j) = k \<and> x = ev_pct (df ! j)"
  by (auto simp: group_ev_def in_set_enumerate_eq image_iff)

lemma map_fst_filter: "map fst (filter (\<lambda>p. P (fst p)) xs) = filter P (map fst xs)"
  by (induction xs) auto

lemma group_ev_sorted: "sorted_wrt (<) (map fst (group_ev df k))"
proof -
  have e: "filter (\<lambda>(i, r). gcols r = k) (enumerate 0 df)
      = filter (\<lambda>p. gcols (df ! fst p) = k) (enumerate 0 df)"
    by (rule filter_cong) (auto simp: in_set_enumerate_eq)
  have "map fst (group_ev df k)
      = map fst (filter (\<lambda>(i, r). gcols r = k) (enumerate 0 df))"
    by (simp add: group_ev_def case_prod_beta comp_def)
  also have "\<dots> = map fst (filter (\<lambda>p. gcols (df ! fst p) = k) (enumerate 0 df))"
    by (simp only: e)
  also have "\<dots> = filter (\<lambda>i. gcols (df ! i) = k) (map fst (enumerate 0 df))"
    by (rule map_fst_filter [of "\<lambda>i. gcols (df ! i) = k"])
  finally show ?thesis
    by (simp add: map_fst_enumerate sorted_wrt_filter sorted_wrt_upt)
qed

lemma sorted_split_fst:
  assumes "sorted_wrt (<) (map fst (pre @ (i, x) # post))"
  shows "\<forall>p \<in> set pre. fst p < i" and "\<forall>p \<in> set post. i < fst p"
  using assms by (auto simp: sorted_wrt_append)

lemma idxmax_py_group:
  assumes "idxmax_py (group_ev df k) = Some i"
  shows "i < length df \<and> gcols (df ! i) = k
       \<and> (\<exists>m. ev_pct (df ! i) = Val m
            \<and> (\<forall>j < length df. gcols (df ! j) = k \<longrightarrow>
                  (case ev_pct (df ! j) of NaN \<Rightarrow> True | Val v \<Rightarrow> v \<le> m \<and> (v = m \<longrightarrow> i \<le> j))))"
proof -
  from assms obtain m where "idxmax_from None (group_ev df k) = Some (i, m)"
    by (auto simp: idxmax_py_def)
  from idxmax_from_Some [OF this] obtain pre post where
    d: "group_ev df k = pre @ (i, Val m) # post"
    and pre: "list_all (lt_or_nan m) pre" and post: "list_all (le_or_nan m) post"
    by auto
  have "(i, Val m) \<in> set (group_ev df k)" unfolding d by simp
  then have sel: "i < length df" "gcols (df ! i) = k" "ev_pct (df ! i) = Val m"
    by (simp_all add: group_ev_mem)
  have s: "sorted_wrt (<) (map fst (pre @ (i, Val m) # post))"
    using group_ev_sorted [of df k] unfolding d .
  have "case ev_pct (df ! j) of NaN \<Rightarrow> True | Val v \<Rightarrow> v \<le> m \<and> (v = m \<longrightarrow> i \<le> j)"
    if "j < length df" "gcols (df ! j) = k" for j
  proof -
    from that have "(j, ev_pct (df ! j)) \<in> set (group_ev df k)"
      by (simp add: group_ev_mem)
    then consider "(j, ev_pct (df ! j)) \<in> set pre" | "(j, ev_pct (df ! j)) = (i, Val m)"
      | "(j, ev_pct (df ! j)) \<in> set post"
      unfolding d by auto
    then show ?thesis
    proof cases
      case 1
      with pre have "lt_or_nan m (j, ev_pct (df ! j))" by (simp add: list_all_iff)
      then show ?thesis by (cases "ev_pct (df ! j)") simp_all
    next
      case 2
      then have "ev_pct (df ! j) = Val m" and "i \<le> j" by auto
      then show ?thesis by simp
    next
      case 3
      with post have "le_or_nan m (j, ev_pct (df ! j))" by (simp add: list_all_iff)
      moreover from 3 sorted_split_fst(2) [OF s] have "i < j" by fastforce
      ultimately show ?thesis by (cases "ev_pct (df ! j)") simp_all
    qed
  qed
  with sel show ?thesis by blast
qed

lemma idxmax_py_None:
  "idxmax_py (group_ev df k) = None
   \<longleftrightarrow> (\<forall>j < length df. gcols (df ! j) = k \<longrightarrow> ev_pct (df ! j) = NaN)"
proof -
  have "idxmax_py (group_ev df k) = None
      \<longleftrightarrow> (\<forall>p \<in> set (group_ev df k). snd p = NaN)"
    by (auto simp: idxmax_py_def idxmax_from_None list_all_iff)
  also have "\<dots> \<longleftrightarrow> (\<forall>j < length df. gcols (df ! j) = k \<longrightarrow> ev_pct (df ! j) = NaN)"
    using group_ev_mem [of _ _ df k] by (metis prod.collapse snd_conv)
  finally show ?thesis .
qed

lemma loc_Inr:
  "loc df idx = Inr out \<longleftrightarrow>
     list_all (\<lambda>i. case i of None \<Rightarrow> False | Some j \<Rightarrow> j < length df) idx
     \<and> out = map (\<lambda>i. df ! the i) idx"
  by (auto simp: loc_def)

lemma distinct_group_keys: "distinct (group_keys df)"
  by (simp add: group_keys_def)

lemma set_group_keys: "set (group_keys df) = {k \<in> gcols ` set df. \<not> key_has_null k}"
  by (auto simp: group_keys_def)

text \<open>
  What the selector does when it completes: one row for each distinct key without a
  missing field, in the order of \<open>group_keys\<close>; the row has a defined \<open>ev_pct\<close> that
  no row of its key exceeds, and it is the first row of its key with that value.
\<close>

theorem best_py_selects_first_max:
  assumes "best_py df = Inr best"
  shows "map gcols best = group_keys df
       \<and> distinct (group_keys df)
       \<and> set (group_keys df) = {k \<in> gcols ` set df. \<not> key_has_null k}
       \<and> list_all2 (\<lambda>b k. \<exists>i m. i < length df \<and> b = df ! i \<and> ev_pct b = Val m
            \<and> (\<forall>j < length df. gcols (df ! j) = k \<longrightarrow>
                  (case ev_pct (df ! j) of NaN \<Rightarrow> True | Val v \<Rightarrow> v \<le> m \<and> (v = m \<longrightarrow> i \<le> j))))
           best (group_keys df)"
proof -
  from assms have ok: "list_all (\<lambda>i. case i of None \<Rightarrow> False | Some j \<Rightarrow> j < length df)
        (groupby_idxmax df)"
    and best: "best = map (\<lambda>i. df ! the i) (groupby_idxmax df)"
    by (simp_all add: best_py_def loc_Inr)
  have sel: "\<exists>i. idxmax_py (group_ev df k) = Some i" if "k \<in> set (group_keys df)" for k
  proof -
    from ok that have "case idxmax_py (group_ev df k) of None \<Rightarrow> False | Some j \<Rightarrow> j < length df"
      by (auto simp: groupby_idxmax_def list_all_iff)
    then show ?thesis by (cases "idxmax_py (group_ev df k)") simp_all
  qed
  have b: "best = map (\<lambda>k. df ! the (idxmax_py (group_ev df k))) (group_keys df)"
    by (simp add: best groupby_idxmax_def comp_def)
  have "map gcols best = map (\<lambda>k. k) (group_keys df)"
    unfolding b map_map
  proof (rule map_cong [OF refl])
    fix k assume "k \<in> set (group_keys df)"
    from sel [OF this] obtain i where i: "idxmax_py (group_ev df k) = Some i" by blast
    from idxmax_py_group [OF i] i
    show "(gcols \<circ> (\<lambda>k. df ! the (idxmax_py (group_ev df k)))) k = k" by simp
  qed
  then have keys: "map gcols best = group_keys df" by simp
  have "list_all2 (\<lambda>b k. \<exists>i m. i < length df \<and> b = df ! i \<and> ev_pct b = Val m
            \<and> (\<forall>j < length df. gcols (df ! j) = k \<longrightarrow>
                  (case ev_pct (df ! j) of NaN \<Rightarrow> True | Val v \<Rightarrow> v \<le> m \<and> (v = m \<longrightarrow> i \<le> j))))
           best (group_keys df)"
    unfolding b list_all2_map1
  proof (rule list_all2_same [THEN iffD2], intro ballI)
    fix k assume "k \<in> set (group_keys df)"
    from sel [OF this] obtain i where i: "idxmax_py (group_ev df k) = Some i" by blast
    from idxmax_py_group [OF i] i
    show "\<exists>i m. i < length df \<and> df ! the (idxmax_py (group_ev df k)) = df ! i
        \<and> ev_pct (df ! the (idxmax_py (group_ev df k))) = Val m
        \<and> (\<forall>j < length df. gcols (df ! j) = k \<longrightarrow>
              (case ev_pct (df ! j) of NaN \<Rightarrow> True | Val v \<Rightarrow> v \<le> m \<and> (v = m \<longrightarrow> i \<le> j)))"
      by auto
  qed
  with keys show ?thesis by (simp add: distinct_group_keys set_group_keys)
qed

text \<open>The selector completes exactly when every group holds a defined \<open>ev_pct\<close>.\<close>

lemma best_py_Inr_iff:
  "(\<exists>best. best_py df = Inr best)
   \<longleftrightarrow> list_all (\<lambda>k. \<exists>r \<in> set df. gcols r = k \<and> ev_pct r \<noteq> NaN) (group_keys df)"
proof
  assume "\<exists>best. best_py df = Inr best"
  then obtain best where "best_py df = Inr best" by blast
  then have ok: "list_all (\<lambda>i. case i of None \<Rightarrow> False | Some j \<Rightarrow> j < length df)
        (groupby_idxmax df)"
    by (simp add: best_py_def loc_Inr)
  have "\<exists>r \<in> set df. gcols r = k \<and> ev_pct r \<noteq> NaN" if "k \<in> set (group_keys df)" for k
  proof -
    from ok that have "idxmax_py (group_ev df k) \<noteq> None"
      by (auto simp: groupby_idxmax_def list_all_iff split: option.splits)
    then obtain j where "j < length df" "gcols (df ! j) = k" "ev_pct (df ! j) \<noteq> NaN"
      unfolding idxmax_py_None by blast
    then show ?thesis using nth_mem by blast
  qed
  then show "list_all (\<lambda>k. \<exists>r \<in> set df. gcols r = k \<and> ev_pct r \<noteq> NaN) (group_keys df)"
    by (simp add: list_all_iff)
next
  assume a: "list_all (\<lambda>k. \<exists>r \<in> set df. gcols r = k \<and> ev_pct r \<noteq> NaN) (group_keys df)"
  have "case idxmax_py (group_ev df k) of None \<Rightarrow> False | Some j \<Rightarrow> j < length df"
    if "k \<in> set (group_keys df)" for k
  proof (cases "idxmax_py (group_ev df k)")
    case None
    from a that obtain r where "r \<in> set df" "gcols r = k" "ev_pct r \<noteq> NaN"
      by (auto simp: list_all_iff)
    then obtain j where "j < length df" "gcols (df ! j) = k" "ev_pct (df ! j) \<noteq> NaN"
      by (metis in_set_conv_nth)
    with None show ?thesis unfolding idxmax_py_None by blast
  next
    case (Some i)
    with idxmax_py_group [OF Some] show ?thesis by simp
  qed
  then have "list_all (\<lambda>i. case i of None \<Rightarrow> False | Some j \<Rightarrow> j < length df)
        (groupby_idxmax df)"
    by (auto simp: groupby_idxmax_def list_all_iff)
  then show "\<exists>best. best_py df = Inr best"
    by (simp add: best_py_def loc_def)
qed

lemma best_py_error: "best_py df = Inl e \<Longrightarrow> e = KeyError"
  by (auto simp: best_py_def loc_def split: if_splits)

section \<open>When the run completes\<close>

lemma parlay_metrics_Inl: "parlay_metrics legs = Inl e \<Longrightarrow> e \<noteq> KeyError"
  by (auto simp: parlay_metrics_def Let_def split: if_splits sum.splits dest: prob_to_american_Inl)

text \<open>
  The run ends with a KeyError exactly when some group without a missing key field holds
  no defined \<open>ev_pct\<close>: the exception of the selector. (The only other exceptions of the
  run are those of the price conversion.)
\<close>

theorem analyze_aborts_iff_undefined_group:
  "analyze float_str str_of df0 = Inl KeyError \<longleftrightarrow>
     \<not> list_all (\<lambda>k. \<exists>r \<in> set (annotate float_str (dropna_required df0)).
                          gcols r = k \<and> ev_pct r \<noteq> NaN)
          (group_keys (annotate float_str (dropna_required df0)))"
proof (cases "best_py (annotate float_str (dropna_required df0))")
  case (Inl e)
  then have "\<not> (\<exists>best. best_py (annotate float_str (dropna_required df0)) = Inr best)"
    by simp
  then have "\<not> list_all (\<lambda>k. \<exists>r \<in> set (annotate float_str (dropna_required df0)).
                          gcols r = k \<and> ev_pct r \<noteq> NaN)
          (group_keys (annotate float_str (dropna_required df0)))"
    unfolding best_py_Inr_iff .
  with Inl best_py_error [OF Inl] show ?thesis
    by (simp add: analyze_def)
next
  case (Inr best)
  have "list_all (\<lambda>k. \<exists>r \<in> set (annotate float_str (dropna_required df0)).
                          gcols r = k \<and> ev_pct r \<noteq> NaN)
          (group_keys (annotate float_str (dropna_required df0)))"
    using Inr best_py_Inr_iff by blast
  moreover have "analyze float_str str_of df0 \<noteq> Inl KeyError"
    using Inr parlay_metrics_Inl
    by (auto simp: analyze_def Let_def split: sum.splits)
  ultimately show ?thesis by simp
qed

section \<open>Best-Offer Selector on missing keys and undefined edges\<close>

text \<open>
  Claim C1 on \<open>null_team_input\<close>. Both rows are valid offers, their proposition keys
  differ, and both receive the median of their own group; but the selector returns one
  row only: the \<^verbatim>\<open>groupby\<close> of line 50 drops the key whose team is missing, while the
  one of line 39 keeps it.
\<close>

theorem best_drops_null_key:
  "length (dropna_required null_team_input) = 2
   \<and> distinct (map gcols (dropna_required null_team_input))
   \<and> map fair_prob (annotate reject_text (dropna_required null_team_input))
       = [Val (11 / 21), Val (11 / 21)]
   \<and> (\<exists>best. best_py (annotate reject_text (dropna_required null_team_input)) = Inr best
         \<and> map player best = [Text ''A''])"
  by (simp add: run_simps null_team_input_def)

text \<open>
  Claim C2 on \<open>unparsable_input\<close>. The only group has no defined \<open>ev_pct\<close>, so
  \<^verbatim>\<open>idxmax\<close> has no label for it and \<^verbatim>\<open>df.loc\<close> raises: the run aborts.
\<close>

theorem all_undefined_group_aborts:
  "best_py (annotate reject_text (dropna_required unparsable_input)) = Inl KeyError
   \<and> (\<forall>str_of. analyze reject_text str_of unparsable_input = Inl KeyError)"
  by (simp add: run_simps unparsable_input_def analyze_def)

end
